theory Spec2Isabelle
  imports Main
begin

section \<open>The editor interface: positions, ranges and documents\<close>

text \<open>
  \<^verbatim>\<open>document.ts\<close> works on the host editor's \<^verbatim>\<open>Position\<close>, \<^verbatim>\<open>Range\<close> and
  \<^verbatim>\<open>TextDocument\<close>. A position is a (line, character) pair, a range is a pair of
  positions, and a document is the list of its lines (never empty in the editor).
  Strings are lists of characters; a column counts characters of a line.
\<close>

datatype Position = Position (line: nat) (character: nat)

datatype Range = Range (rstart: Position) (rend: Position)

type_synonym TextDocument = "string list"

datatype error = TypeError | IllegalArgument | SyntaxError

definition isBefore :: "Position \<Rightarrow> Position \<Rightarrow> bool" where
  "isBefore a b = (line a < line b \<or> (line a = line b \<and> character a < character b))"

definition isBeforeOrEqual :: "Position \<Rightarrow> Position \<Rightarrow> bool" where
  "isBeforeOrEqual a b = (isBefore a b \<or> a = b)"

definition withCharacter :: "Position \<Rightarrow> nat \<Rightarrow> Position" where
  \<comment> \<open>\<^verbatim>\<open>pos.with({character: c})\<close>\<close>
  "withCharacter p c = Position (line p) c"

definition newRange :: "Position \<Rightarrow> Position \<Rightarrow> Range" where
  \<comment> \<open>\<^verbatim>\<open>new vscode.Range(a, b)\<close>: the editor's constructor orders the two positions.\<close>
  "newRange a b = (if isBefore a b then Range a b else Range b a)"

definition validatePosition :: "TextDocument \<Rightarrow> Position \<Rightarrow> Position" where
  \<comment> \<open>The editor clamps a position into the document.\<close>
  "validatePosition doc p =
     (if doc = [] then Position 0 0
      else if line p \<ge> length doc then Position (length doc - 1) (length (last doc))
      else if character p > length (doc ! line p) then Position (line p) (length (doc ! line p))
      else p)"

definition validateRange :: "TextDocument \<Rightarrow> Range \<Rightarrow> Range" where
  "validateRange doc r =
     (let s = validatePosition doc (rstart r); e = validatePosition doc (rend r)
      in if s = rstart r \<and> e = rend r then r else newRange s e)"

definition lineAt :: "TextDocument \<Rightarrow> nat \<Rightarrow> error + string" where
  \<comment> \<open>\<^verbatim>\<open>document.lineAt(idx).text\<close>; the editor throws on a line that does not exist.\<close>
  "lineAt doc idx = (if idx < length doc then Inr (doc ! idx) else Inl IllegalArgument)"

section \<open>The disjoint range set\<close>

text \<open>
  \<^verbatim>\<open>document.ts\<close> imports the class \<^verbatim>\<open>DisjointRangeSet\<close> and the helpers
  \<^verbatim>\<open>toRangeDelta\<close>, \<^verbatim>\<open>rangeDeltaNewRange\<close> and \<^verbatim>\<open>maxPosition\<close> from
  \<^verbatim>\<open>disjointrangeset.ts\<close>. The definitions of this section are modelled from the spec,
  its data model (3) and its component design (4.1). A set is the list of its ranges in
  ascending order.
\<close>

type_synonym DisjointRangeSet = "Range list"

definition rangesOverlap :: "Range \<Rightarrow> Range \<Rightarrow> bool" where
  \<comment> \<open>Modelled from the spec: two ranges overlap if their interiors intersect.\<close>
  "rangesOverlap a b = (isBefore (rstart a) (rend b) \<and> isBefore (rstart b) (rend a))"

definition insertRange :: "Range \<Rightarrow> DisjointRangeSet \<Rightarrow> DisjointRangeSet" where
  \<comment> \<open>Modelled from the spec: \<^verbatim>\<open>insert\<close> of \<^verbatim>\<open>DisjointRangeSet\<close> adds a range at its place
      in the order; a range that overlaps a stored one is rejected.\<close>
  "insertRange r rs =
     (if list_ex (rangesOverlap r) rs then rs
      else takeWhile (\<lambda>x. isBefore (rstart x) (rstart r)) rs @
           r # dropWhile (\<lambda>x. isBefore (rstart x) (rstart r)) rs)"

definition insertRanges :: "DisjointRangeSet \<Rightarrow> DisjointRangeSet \<Rightarrow> DisjointRangeSet" where
  \<comment> \<open>Modelled from the spec: \<^verbatim>\<open>insertRanges\<close> of \<^verbatim>\<open>DisjointRangeSet\<close>, the bulk insert
      of the ranges of another set (\<^verbatim>\<open>this.insertRanges(other)\<close>, the receiver second).\<close>
  "insertRanges other rs = fold insertRange other rs"

definition overlapsQuery :: "Range \<Rightarrow> bool \<Rightarrow> bool \<Rightarrow> Range \<Rightarrow> bool" where
  \<comment> \<open>Modelled from the spec: a stored range overlaps the query range, or (with the flags
      of \<^verbatim>\<open>removeOverlapping\<close>) touches its start or its end.\<close>
  "overlapsQuery q includeTouchingStart includeTouchingEnd r =
     ((isBefore (rstart r) (rend q) \<or> (includeTouchingEnd \<and> rstart r = rend q)) \<and>
      (isBefore (rstart q) (rend r) \<or> (includeTouchingStart \<and> rend r = rstart q)))"

definition removeOverlapping ::
  "Range \<Rightarrow> bool \<Rightarrow> bool \<Rightarrow> DisjointRangeSet \<Rightarrow> Range list \<times> DisjointRangeSet" where
  \<comment> \<open>Modelled from the spec: \<^verbatim>\<open>removeOverlapping\<close> of \<^verbatim>\<open>DisjointRangeSet\<close> removes and
      returns every stored range overlapping (optionally touching) the query range. The
      result is the removed ranges and the set that remains.\<close>
  "removeOverlapping q includeTouchingStart includeTouchingEnd rs =
     (filter (overlapsQuery q includeTouchingStart includeTouchingEnd) rs,
      filter (\<lambda>r. \<not> overlapsQuery q includeTouchingStart includeTouchingEnd r) rs)"

text \<open>
  Modelled from the spec: the edit delta \<^verbatim>\<open>RangeDelta\<close>, the old range replaced and the
  difference between the extents of the new and the old text, as a line delta and a
  column delta of the end.
\<close>

record RangeDelta =
  deltaStart :: Position
  deltaEnd :: Position
  linesDelta :: int
  endCharactersDelta :: int

fun textExtent :: "string \<Rightarrow> nat \<times> nat" where
  \<comment> \<open>Modelled from the spec: the extent of an inserted text, the number of its line
      breaks and the length of its last line.\<close>
  "textExtent [] = (0, 0)"
| "textExtent (c # cs) =
     (let (ls, n) = textExtent cs
      in if c = CHR 0x0A then (Suc ls, n)
         else if ls = 0 then (0, Suc n) else (ls, n))"

definition toRangeDelta :: "Range \<Rightarrow> string \<Rightarrow> RangeDelta" where
  \<comment> \<open>Modelled from the spec: \<^verbatim>\<open>toRangeDelta\<close>, the delta of replacing a range by a text.\<close>
  "toRangeDelta oldRange txt =
     (let (ls, n) = textExtent txt;
          newEnd = (if ls = 0 then Position (line (rstart oldRange)) (character (rstart oldRange) + n)
                    else Position (line (rstart oldRange) + ls) n)
      in \<lparr>deltaStart = rstart oldRange, deltaEnd = rend oldRange,
          linesDelta = int (line newEnd) - int (line (rend oldRange)),
          endCharactersDelta = int (character newEnd) - int (character (rend oldRange))\<rparr>)"

definition rangeDeltaNewRange :: "RangeDelta \<Rightarrow> Range" where
  \<comment> \<open>Modelled from the spec: \<^verbatim>\<open>rangeDeltaNewRange\<close>, the span the inserted text occupies.\<close>
  "rangeDeltaNewRange d =
     newRange (deltaStart d)
       (Position (nat (int (line (deltaEnd d)) + linesDelta d))
                 (nat (int (character (deltaEnd d)) + endCharactersDelta d)))"

definition positionRangeDeltaTranslate :: "RangeDelta \<Rightarrow> Position \<Rightarrow> Position" where
  \<comment> \<open>Modelled from the spec: the shift function of an edit delta. A position strictly
      after the old range's end moves by the line delta, and by the column delta when it
      is on the line of that end; a position before the edit is untouched.\<close>
  "positionRangeDeltaTranslate d p =
     (if isBefore (deltaEnd d) p
      then Position (nat (int (line p) + linesDelta d))
             (if line p = line (deltaEnd d) then nat (int (character p) + endCharactersDelta d)
              else character p)
      else p)"

definition shiftRangeDelta :: "RangeDelta \<Rightarrow> DisjointRangeSet \<Rightarrow> DisjointRangeSet" where
  \<comment> \<open>Modelled from the spec: \<^verbatim>\<open>shiftRangeDelta\<close> of \<^verbatim>\<open>DisjointRangeSet\<close> translates every
      stored range by the shift function. (The range it returns is used for debugging only.)\<close>
  "shiftRangeDelta d rs =
     map (\<lambda>r. Range (positionRangeDeltaTranslate d (rstart r))
                     (positionRangeDeltaTranslate d (rend r))) rs"

definition closerPreceding :: "Range \<Rightarrow> Range \<Rightarrow> Range" where
  \<comment> \<open>Modelled from the spec: of two ranges that end at or before a position, the closer one.\<close>
  "closerPreceding r best = (if isBefore (rend best) (rend r) then r else best)"

definition findPreceding :: "Position \<Rightarrow> DisjointRangeSet \<Rightarrow> Range option" where
  \<comment> \<open>Modelled from the spec: \<^verbatim>\<open>findPreceding\<close> of \<^verbatim>\<open>DisjointRangeSet\<close>, the closest range
      whose end is at or before the position, or none.\<close>
  "findPreceding p rs =
     (case filter (\<lambda>r. isBeforeOrEqual (rend r) p) rs of
        [] \<Rightarrow> None
      | c # cs \<Rightarrow> Some (fold closerPreceding cs c))"

definition getRangesStartingAt :: "Position \<Rightarrow> DisjointRangeSet \<Rightarrow> Range list" where
  \<comment> \<open>Modelled from the spec: \<^verbatim>\<open>getRangesStartingAt\<close> of \<^verbatim>\<open>DisjointRangeSet\<close>, the
      ascending sequence of the ranges that start at or after the position.\<close>
  "getRangesStartingAt p rs = filter (\<lambda>r. isBeforeOrEqual p (rstart r)) rs"

definition getEnd :: "DisjointRangeSet \<Rightarrow> Position" where
  \<comment> \<open>Modelled from the spec: \<^verbatim>\<open>getEnd\<close> of \<^verbatim>\<open>DisjointRangeSet\<close>, the end of the last
      range. The spec gives no value for the empty set; \<^verbatim>\<open>parsePretty\<close> compares against
      it without a guard, and the origin is taken.\<close>
  "getEnd rs = (if rs = [] then Position 0 0 else rend (last rs))"

definition isEmpty :: "DisjointRangeSet \<Rightarrow> bool" where
  \<comment> \<open>Modelled from the spec: \<^verbatim>\<open>isEmpty\<close> of \<^verbatim>\<open>DisjointRangeSet\<close>.\<close>
  "isEmpty rs = (rs = [])"

definition maxPosition :: "Position \<Rightarrow> Position \<Rightarrow> Position" where
  \<comment> \<open>Modelled from the spec: \<^verbatim>\<open>maxPosition\<close>, the later of two positions (the furthest
      end of the re-scanned range).\<close>
  "maxPosition a b = (if isBefore a b then b else a)"

section \<open>The regular expression engine\<close>

text \<open>
  The engine of the host language is a capability the controller is given: whether a
  pattern source compiles, and \<^verbatim>\<open>exec\<close> of a compiled global pattern on a text from a
  search position. A successful \<^verbatim>\<open>exec\<close> yields the match array (entry 0 the whole
  match, entry \<open>i\<close> capture group \<open>i\<close>, \<open>None\<close> for a group that took no part) and
  the index of the match; the engine then leaves the search position at the end of the
  whole match. A failed \<^verbatim>\<open>exec\<close> resets the search position to 0.
\<close>

record RegExpExecArray =
  index :: nat
  array :: "string option list"

type_synonym RegExpEngine = "string \<Rightarrow> string \<Rightarrow> nat \<Rightarrow> RegExpExecArray option"

definition execLastIndex :: "RegExpExecArray \<Rightarrow> nat" where
  "execLastIndex m = index m + (case array m of Some w # _ \<Rightarrow> length w | _ \<Rightarrow> 0)"

fun indexOf :: "string \<Rightarrow> string \<Rightarrow> int" where
  \<comment> \<open>\<^verbatim>\<open>hay.indexOf(needle)\<close>: the first place of the needle, -1 when there is none\<close>
  "indexOf [] needle = (if needle = [] then 0 else -1)"
| "indexOf (c # cs) needle =
     (if take (length needle) (c # cs) = needle then 0
      else (let i = indexOf cs needle in if i < 0 then -1 else i + 1))"

section \<open>The controller\<close>

text \<open>
  Modelled from the spec: a \<^verbatim>\<open>Substitution\<close> is declared in \<^verbatim>\<open>configuration.ts\<close>; the
  controller reads its fields \<^verbatim>\<open>ugly\<close>, \<^verbatim>\<open>pretty\<close>, \<^verbatim>\<open>pre\<close> and \<^verbatim>\<open>post\<close>, the last two
  optional.
\<close>

record Substitution =
  ugly :: string
  pretty :: string
  pre :: "string option"
  post :: "string option"

text \<open>
  A \<^verbatim>\<open>PrettySubstitution\<close> holds the compiled pattern (here its source), the pretty text
  and the rule's own range set. The decoration types are handles of the editor and carry
  no data of the controller.
\<close>

record PrettySubstitution =
  uglyRegExp :: string
  prettyText :: string
  ranges :: DisjointRangeSet

text \<open>
  The fields of \<^verbatim>\<open>PrettyDocumentController\<close> the scanning code reads and writes. The
  effects on the outside are counted: \<open>redraws\<close> is the number of calls of
  \<^verbatim>\<open>applyDecorations\<close>, \<open>warnings\<close> and \<open>errors\<close> are what went to the console.
\<close>

record Controller =
  document :: TextDocument
  prettyDecorations :: "PrettySubstitution list"
  prettySubstitutions :: "Substitution list"
  uglyAll :: string
  uglyDecorationRanges :: DisjointRangeSet
  changedUglies :: bool
  redraws :: nat
  warnings :: "string list"
  errors :: "error list"

record UglyMatch =
  uglyRange :: Range
  prettyIndex :: nat

definition debugging :: bool where
  "debugging = False"

definition applyDecorations :: "Controller \<Rightarrow> Controller" where
  \<comment> \<open>hands the range sets to the editors (on timers); the controller only records the call\<close>
  "applyDecorations s = s\<lparr>redraws := Suc (redraws s)\<rparr>"

definition definedEntries :: "string option list \<Rightarrow> (nat \<times> string option) list" where
  \<comment> \<open>\<^verbatim>\<open>match.map((value,idx) => ...).filter((value) => value.match !== undefined)\<close>\<close>
  "definedEntries xs = filter (\<lambda>(idx, value). value \<noteq> None) (enumerate 0 xs)"

definition getUglyFromMatch ::
  "RegExpExecArray \<Rightarrow> nat \<Rightarrow> nat \<Rightarrow> error + (UglyMatch option \<times> nat)" where
  \<comment> \<open>the third argument is \<^verbatim>\<open>uglyAll.lastIndex\<close> on entry, the second result its value on return\<close>
  "getUglyFromMatch match ln lastIndex =
     (let matches = definedEntries (array match)
      in if length matches \<le> 1 then Inr (None, lastIndex)
         else
           (let matchIdx = fst (last matches)
            in case (array match ! matchIdx, array match ! 0) of
                 (Some matchStr, Some whole) \<Rightarrow>
                   (let start = int (index match) + indexOf whole matchStr;
                        end = start + int (length matchStr)
                    in if start < 0 then Inl IllegalArgument
                       else Inr (Some \<lparr>uglyRange = Range (Position ln (nat start)) (Position ln (nat end)),
                                       prettyIndex = matchIdx - 1\<rparr>,
                                 nat end))
               | _ \<Rightarrow> Inl TypeError))"

type_synonym Fresh = "DisjointRangeSet \<times> DisjointRangeSet list"

definition insertUgly :: "UglyMatch \<Rightarrow> Fresh \<Rightarrow> Fresh" where
  \<comment> \<open>\<^verbatim>\<open>newUglyRanges.insert(ugly.range)\<close>\<close>
  "insertUgly u fresh = (insertRange (uglyRange u) (fst fresh), snd fresh)"

definition insertPretty :: "UglyMatch \<Rightarrow> Fresh \<Rightarrow> error + Fresh" where
  \<comment> \<open>\<^verbatim>\<open>newPrettyRanges[ugly.prettyIndex].insert(ugly.range)\<close>: no such set is a TypeError\<close>
  "insertPretty u fresh =
     (if prettyIndex u < length (snd fresh)
      then Inr (fst fresh,
                (snd fresh)[prettyIndex u := insertRange (uglyRange u) (snd fresh ! prettyIndex u)])
      else Inl TypeError)"

text \<open>
  The loop over one of the lines before the last: every match found is inserted, an
  exception leaves the loop (and \<^verbatim>\<open>parsePretty\<close>). The result \<open>None\<close> is a loop that
  never ends.
\<close>

partial_function (option) scanLine ::
  "RegExpEngine \<Rightarrow> string \<Rightarrow> string \<Rightarrow> nat \<Rightarrow> nat \<Rightarrow> Fresh \<Rightarrow> (error + Fresh) option" where
  "scanLine exec re txt idx lastIndex fresh =
     (case exec re txt lastIndex of
        None \<Rightarrow> Some (Inr fresh)
      | Some match \<Rightarrow>
          (case getUglyFromMatch match idx (execLastIndex match) of
             Inl e \<Rightarrow> Some (Inl e)
           | Inr (None, lastIndex') \<Rightarrow> scanLine exec re txt idx lastIndex' fresh
           | Inr (Some u, lastIndex') \<Rightarrow>
               (case insertPretty u (insertUgly u fresh) of
                  Inl e \<Rightarrow> Some (Inl e)
                | Inr fresh' \<Rightarrow> scanLine exec re txt idx lastIndex' fresh')))"

fun scanLines ::
  "RegExpEngine \<Rightarrow> string \<Rightarrow> TextDocument \<Rightarrow> nat list \<Rightarrow> nat \<Rightarrow> Fresh \<Rightarrow> (error + Fresh) option" where
  \<comment> \<open>the \<^verbatim>\<open>for\<close> loop over the lines \<open>idxs\<close>; after a line the search starts at 0 again\<close>
  "scanLines exec re doc [] lastIndex fresh = Some (Inr fresh)"
| "scanLines exec re doc (idx # idxs) lastIndex fresh =
     (case lineAt doc idx of
        Inl e \<Rightarrow> Some (Inl e)
      | Inr txt \<Rightarrow>
          (case scanLine exec re txt idx lastIndex fresh of
             None \<Rightarrow> None
           | Some (Inl e) \<Rightarrow> Some (Inl e)
           | Some (Inr fresh') \<Rightarrow> scanLines exec re doc idxs 0 fresh'))"

text \<open>
  The loop over the last line. \<open>preexisting\<close> is what the iterator of
  \<^verbatim>\<open>getRangesStartingAt\<close> still has to yield (the range set is not changed while the
  loop runs), its head is \<^verbatim>\<open>preexistingUgly\<close>. The body is inside \<^verbatim>\<open>try\<close>: an
  exception ends the iteration, not the loop.
\<close>

datatype LastLineStep = Break | Continue nat "Range list" Fresh

definition insertCandidate :: "UglyMatch \<Rightarrow> Fresh \<Rightarrow> Fresh" where
  \<comment> \<open>the two inserts inside \<^verbatim>\<open>try\<close>: when the second throws, the first has been done\<close>
  "insertCandidate u fresh =
     (case insertPretty u (insertUgly u fresh) of
        Inl e \<Rightarrow> insertUgly u fresh
      | Inr fresh' \<Rightarrow> fresh')"

definition lastLineBody ::
  "RegExpExecArray \<Rightarrow> nat \<Rightarrow> Range list \<Rightarrow> Fresh \<Rightarrow> LastLineStep" where
  "lastLineBody match ln preexisting fresh =
     (case getUglyFromMatch match ln (execLastIndex match) of
        Inl e \<Rightarrow> Continue (execLastIndex match) preexisting fresh
      | Inr (None, lastIndex') \<Rightarrow> Continue lastIndex' preexisting fresh
      | Inr (Some u, lastIndex') \<Rightarrow>
          (if preexisting \<noteq> [] \<and> hd preexisting = uglyRange u then Break
           else
             (let preexisting' =
                    (if preexisting \<noteq> [] \<and> isBefore (rstart (hd preexisting)) (rend (uglyRange u))
                     then tl preexisting else preexisting)
              in Continue lastIndex' preexisting' (insertCandidate u fresh))))"

partial_function (option) scanLastLine ::
  "RegExpEngine \<Rightarrow> string \<Rightarrow> string \<Rightarrow> nat \<Rightarrow> nat \<Rightarrow> Range list \<Rightarrow> Fresh \<Rightarrow> Fresh option" where
  "scanLastLine exec re txt ln lastIndex preexisting fresh =
     (case exec re txt lastIndex of
        None \<Rightarrow> Some fresh
      | Some match \<Rightarrow>
          (case lastLineBody match ln preexisting fresh of
             Break \<Rightarrow> Some fresh
           | Continue lastIndex' preexisting' fresh' \<Rightarrow>
               scanLastLine exec re txt ln lastIndex' preexisting' fresh'))"


declare scanLine.simps [code]

declare scanLastLine.simps [code]

text \<open>
  \<^verbatim>\<open>parsePretty\<close>. \<open>scanStart\<close> is the search position the scan begins with
  (\<^verbatim>\<open>startCharacter\<close>), \<open>mergeFresh\<close> is the end of the function: it removes the
  pre-existing ranges the fresh ones have run over and inserts the fresh ones.
\<close>

definition scanStart :: "Controller \<Rightarrow> Range \<Rightarrow> nat" where
  "scanStart s rng =
     (case findPreceding (rstart rng) (uglyDecorationRanges s) of
        Some precedingRange \<Rightarrow>
          if line (rend precedingRange) = line (rstart rng)
          then character (rend precedingRange) else 0
      | None \<Rightarrow> 0)"

definition removeExtraOverlap :: "Range \<Rightarrow> DisjointRangeSet \<Rightarrow> Controller \<Rightarrow> Controller" where
  "removeExtraOverlap rng newUglyRanges s =
     (if isBefore (rend rng) (getEnd newUglyRanges)
      then
        (let extraOverlap = newRange (rend rng) (getEnd newUglyRanges)
         in s\<lparr>uglyDecorationRanges :=
                 snd (removeOverlapping extraOverlap False False (uglyDecorationRanges s)),
               prettyDecorations :=
                 map (\<lambda>subst. subst\<lparr>ranges :=
                        snd (removeOverlapping extraOverlap False False (ranges subst))\<rparr>)
                     (prettyDecorations s)\<rparr>)
      else s)"

definition mergeFresh :: "Range \<Rightarrow> Fresh \<Rightarrow> Controller \<Rightarrow> Controller" where
  "mergeFresh rng fresh s =
     (let s1 = removeExtraOverlap rng (fst fresh) s
      in s1\<lparr>uglyDecorationRanges := insertRanges (fst fresh) (uglyDecorationRanges s1),
            prettyDecorations :=
              map (\<lambda>(subst, new). subst\<lparr>ranges := insertRanges new (ranges subst)\<rparr>)
                  (zip (prettyDecorations s1) (snd fresh))\<rparr>)"

definition scanRange ::
  "RegExpEngine \<Rightarrow> Range \<Rightarrow> nat \<Rightarrow> Controller \<Rightarrow> (error + Fresh) option" where
  \<comment> \<open>the two loops: the lines before the last from \<open>startCharacter\<close>, then the last line\<close>
  "scanRange exec rng startCharacter s =
     (case scanLines exec (uglyAll s) (document s)
             [line (rstart rng) ..< line (rend rng)] startCharacter
             ([], replicate (length (prettyDecorations s)) []) of
        None \<Rightarrow> None
      | Some (Inl e) \<Rightarrow> Some (Inl e)
      | Some (Inr fresh1) \<Rightarrow>
          (case lineAt (document s) (line (rend rng)) of
             Inl e \<Rightarrow> Some (Inl e)
           | Inr txt \<Rightarrow>
               (case scanLastLine exec (uglyAll s) txt (line (rend rng))
                       (if line (rstart rng) < line (rend rng) then 0 else startCharacter)
                       (getRangesStartingAt (rend rng) (uglyDecorationRanges s)) fresh1 of
                  None \<Rightarrow> None
                | Some fresh \<Rightarrow> Some (Inr fresh))))"

definition parsePretty ::
  "RegExpEngine \<Rightarrow> Range \<Rightarrow> Controller \<Rightarrow> (error + Range \<times> Controller) option" where
  "parsePretty exec range0 s =
     (if length (prettyDecorations s) = 0 then Some (Inr (range0, s))
      else
        (let rng = validateRange (document s) range0;
             startCharacter = scanStart s rng
         in case scanRange exec rng startCharacter s of
              None \<Rightarrow> None
            | Some (Inl e) \<Rightarrow> Some (Inl e)
            | Some (Inr fresh) \<Rightarrow>
                (let s' = mergeFresh rng fresh s
                 in if \<not> isEmpty (fst fresh)
                    then Some (Inr (newRange (withCharacter (rstart rng) startCharacter)
                                      (maxPosition (rend rng) (getEnd (fst fresh))),
                                    s'\<lparr>changedUglies := True\<rparr>))
                    else Some (Inr (newRange (withCharacter (rstart rng) startCharacter)
                                      (rend rng),
                                    s')))))"

text \<open>
  \<^verbatim>\<open>loadDecorations\<close>. \<open>compiles\<close> says whether \<^verbatim>\<open>new RegExp(source, "g")\<close>
  succeeds. \<open>loadRules\<close> is the loop over the configured substitutions with its
  \<^verbatim>\<open>try\<close>/\<^verbatim>\<open>catch\<close>; the pattern of all rules is compiled after the loop, outside it.
\<close>

definition regexpOptionalGroup :: "string option \<Rightarrow> string" where
  "regexpOptionalGroup re =
     (case re of Some r \<Rightarrow> if r \<noteq> [] then ''(?:'' @ r @ '')'' else [] | None \<Rightarrow> [])"

definition uglyStrOf :: "Substitution \<Rightarrow> string" where
  "uglyStrOf prettySubst =
     regexpOptionalGroup (pre prettySubst) @ ''('' @ ugly prettySubst @ '')'' @
     regexpOptionalGroup (post prettySubst)"

definition ruleWarning :: "Substitution \<Rightarrow> string" where
  "ruleWarning prettySubst =
     ''Could not add rule '' @ [CHR 0x22] @ uglyStrOf prettySubst @ [CHR 0x22] @ '' --> '' @
     [CHR 0x22] @ pretty prettySubst @ [CHR 0x22] @ ''; invalid regular expression''"

fun join :: "string \<Rightarrow> string list \<Rightarrow> string" where
  "join sep [] = []"
| "join sep [x] = x"
| "join sep (x # y # ys) = x @ sep @ join sep (y # ys)"

definition unloadDecorations :: "Controller \<Rightarrow> Controller" where
  "unloadDecorations s =
     applyDecorations
       (s\<lparr>uglyDecorationRanges := [],
          prettyDecorations := map (\<lambda>subst. subst\<lparr>ranges := []\<rparr>) (prettyDecorations s)\<rparr>)"

fun loadRules ::
  "(string \<Rightarrow> bool) \<Rightarrow> Substitution list \<Rightarrow>
   PrettySubstitution list \<times> string list \<times> string list \<Rightarrow>
   PrettySubstitution list \<times> string list \<times> string list" where
  "loadRules compiles [] acc = acc"
| "loadRules compiles (prettySubst # rest) (decorations, uglyAllStrings, warns) =
     (let uglyStr = uglyStrOf prettySubst
      in if compiles uglyStr
         then loadRules compiles rest
                (decorations @ [\<lparr>uglyRegExp = uglyStr, prettyText = pretty prettySubst, ranges = []\<rparr>],
                 uglyAllStrings @ [''(?:'' @ uglyStr @ '')''],
                 warns)
         else loadRules compiles rest
                (decorations, uglyAllStrings, warns @ [ruleWarning prettySubst]))"

definition loadDecorations :: "(string \<Rightarrow> bool) \<Rightarrow> Controller \<Rightarrow> error + Controller" where
  "loadDecorations compiles s =
     (let s1 = unloadDecorations s;
          (decorations, uglyAllStrings, warns) =
             loadRules compiles (prettySubstitutions s1) ([], [], warnings s1);
          s2 = s1\<lparr>prettyDecorations := decorations, warnings := warns\<rparr>
      in if compiles (join ''|'' uglyAllStrings)
         then Inr (s2\<lparr>uglyAll := join ''|'' uglyAllStrings\<rparr>)
         else Inl SyntaxError)"

text \<open>The constructor scans the whole document; \<^verbatim>\<open>refresh\<close> empties the sets and does the same.\<close>

definition docRange :: "TextDocument \<Rightarrow> Range" where
  "docRange doc = newRange (Position 0 0) (Position (length doc) 0)"

definition newController ::
  "(string \<Rightarrow> bool) \<Rightarrow> RegExpEngine \<Rightarrow> TextDocument \<Rightarrow> Substitution list \<Rightarrow>
   (error + Controller) option" where
  "newController compiles exec doc substitutions =
     (case loadDecorations compiles
             \<lparr>document = doc, prettyDecorations = [], prettySubstitutions = substitutions,
              uglyAll = [], uglyDecorationRanges = [], changedUglies = False,
              redraws = 0, warnings = [], errors = []\<rparr> of
        Inl e \<Rightarrow> Some (Inl e)
      | Inr s \<Rightarrow>
          (case parsePretty exec (docRange (document s)) s of
             None \<Rightarrow> None
           | Some (Inl e) \<Rightarrow> Some (Inl e)
           | Some (Inr (reparsed, s')) \<Rightarrow> Some (Inr (applyDecorations s'))))"

definition refresh :: "RegExpEngine \<Rightarrow> Controller \<Rightarrow> (error + Controller) option" where
  "refresh exec s =
     (let s1 = s\<lparr>uglyDecorationRanges := [],
                 prettyDecorations := map (\<lambda>subst. subst\<lparr>ranges := []\<rparr>) (prettyDecorations s)\<rparr>
      in case parsePretty exec (docRange (document s1)) s1 of
           None \<Rightarrow> None
         | Some (Inl e) \<Rightarrow> Some (Inl e)
         | Some (Inr (reparsed, s')) \<Rightarrow> Some (Inr (applyDecorations s')))"

text \<open>
  \<^verbatim>\<open>onChangeDocument\<close>. The editor has changed the document before it calls the
  handler, so the event carries the document as it is now, and the ranges of the changes
  are positions of the document as it was. \<open>processChange\<close> is the body of the loop
  over the changes; its \<^verbatim>\<open>catch\<close> writes the exception to the console and goes on.
\<close>

record TextDocumentContentChangeEvent =
  changeRange :: Range
  changeText :: string

record TextDocumentChangeEvent =
  eventDocument :: TextDocument
  contentChanges :: "TextDocumentContentChangeEvent list"

definition processChange ::
  "RegExpEngine \<Rightarrow> TextDocumentContentChangeEvent \<Rightarrow> Controller \<Rightarrow> Controller option" where
  "processChange exec change s =
     (let delta = toRangeDelta (changeRange change) (changeText change);
          editRange = rangeDeltaNewRange delta;
          removed = fst (removeOverlapping (changeRange change) True True (uglyDecorationRanges s));
          s1 = s\<lparr>uglyDecorationRanges :=
                   shiftRangeDelta delta
                     (snd (removeOverlapping (changeRange change) True True (uglyDecorationRanges s)))\<rparr>;
          s2 = (if length removed > 0 then s1\<lparr>changedUglies := True\<rparr> else s1);
          s3 = s2\<lparr>prettyDecorations :=
                    map (\<lambda>subst. subst\<lparr>ranges :=
                           shiftRangeDelta delta
                             (snd (removeOverlapping (changeRange change) True True (ranges subst)))\<rparr>)
                        (prettyDecorations s2)\<rparr>
      in case parsePretty exec editRange s3 of
           None \<Rightarrow> None
         | Some (Inl e) \<Rightarrow> Some (s3\<lparr>errors := errors s3 @ [e]\<rparr>)
         | Some (Inr (reparsed, s4)) \<Rightarrow> Some s4)"

fun processChanges ::
  "RegExpEngine \<Rightarrow> TextDocumentContentChangeEvent list \<Rightarrow> Controller \<Rightarrow> Controller option" where
  "processChanges exec [] s = Some s"
| "processChanges exec (change # changes) s =
     (case processChange exec change s of
        None \<Rightarrow> None
      | Some s' \<Rightarrow> processChanges exec changes s')"

definition onChangeDocument ::
  "RegExpEngine \<Rightarrow> TextDocumentChangeEvent \<Rightarrow> Controller \<Rightarrow> Controller option" where
  "onChangeDocument exec event s =
     (case processChanges exec (contentChanges event)
             (s\<lparr>document := eventDocument event, changedUglies := False\<rparr>) of
        None \<Rightarrow> None
      | Some s' \<Rightarrow>
          Some (if changedUglies s' \<or> True then applyDecorations s'
                else if debugging then s' else s'))"

section \<open>A regular expression engine for literal patterns\<close>

text \<open>
  To run the controller, an engine for the patterns built from literals, sequence,
  alternation, capturing groups and non-capturing groups, with the semantics of the host
  language: the leftmost match from the search position, the first alternative that
  matches, groups numbered by their opening parenthesis, a group outside the chosen
  alternative undefined. \<open>source\<close> prints a pattern as the text the controller
  assembles; the literals used are free of pattern metacharacters and alternation
  appears only directly inside a group or at the top.
\<close>

datatype Regex = Lit string | Cat Regex Regex | Alt Regex Regex | Cap Regex | NonCap Regex

fun source :: "Regex \<Rightarrow> string" where
  "source (Lit s) = s"
| "source (Cat a b) = source a @ source b"
| "source (Alt a b) = source a @ ''|'' @ source b"
| "source (Cap a) = ''('' @ source a @ '')''"
| "source (NonCap a) = ''(?:'' @ source a @ '')''"

fun groupCount :: "Regex \<Rightarrow> nat" where
  "groupCount (Lit s) = 0"
| "groupCount (Cat a b) = groupCount a + groupCount b"
| "groupCount (Alt a b) = groupCount a + groupCount b"
| "groupCount (Cap a) = Suc (groupCount a)"
| "groupCount (NonCap a) = groupCount a"

text \<open>
  \<open>matchAt r k txt (i, caps)\<close>: the ways \<open>r\<close>, whose first group has number \<open>k\<close>
  (counted from 0), matches \<open>txt\<close> from column \<open>i\<close>, in the order the engine tries them:
  the column after the match and the spans of the groups. The match array the program
  sees holds the texts of the spans, not the spans.
\<close>

type_synonym Span = "nat \<times> nat"

definition substring :: "string \<Rightarrow> Span \<Rightarrow> string" where
  "substring txt sp = take (snd sp - fst sp) (drop (fst sp) txt)"

fun matchAt ::
  "Regex \<Rightarrow> nat \<Rightarrow> string \<Rightarrow> nat \<times> Span option list \<Rightarrow> (nat \<times> Span option list) list" where
  "matchAt (Lit s) k txt st =
     (if take (length s) (drop (fst st) txt) = s then [(fst st + length s, snd st)] else [])"
| "matchAt (Cat a b) k txt st =
     concat (map (matchAt b (k + groupCount a) txt) (matchAt a k txt st))"
| "matchAt (Alt a b) k txt st = matchAt a k txt st @ matchAt b (k + groupCount a) txt st"
| "matchAt (Cap a) k txt st =
     map (\<lambda>(j, caps). (j, caps[k := Some (fst st, j)])) (matchAt a (Suc k) txt st)"
| "matchAt (NonCap a) k txt st = matchAt a k txt st"

fun searchFrom :: "Regex \<Rightarrow> string \<Rightarrow> nat \<Rightarrow> nat \<Rightarrow> Span option list option" where
  \<comment> \<open>tries the columns \<open>i\<close>, \<open>i + 1\<close>, ... (\<open>n\<close> of them); the spans of the whole match
      and of the groups\<close>
  "searchFrom r txt i 0 = None"
| "searchFrom r txt i (Suc n) =
     (case matchAt r 0 txt (i, replicate (groupCount r) None) of
        [] \<Rightarrow> searchFrom r txt (Suc i) n
      | (j, caps) # _ \<Rightarrow> Some (Some (i, j) # caps))"

definition execSpans :: "Regex \<Rightarrow> string \<Rightarrow> nat \<Rightarrow> Span option list option" where
  "execSpans r txt lastIndex =
     (if lastIndex > length txt then None
      else searchFrom r txt lastIndex (Suc (length txt) - lastIndex))"

definition matchArray :: "string \<Rightarrow> Span option list \<Rightarrow> RegExpExecArray" where
  "matchArray txt spans =
     \<lparr>index = (case spans of Some sp # _ \<Rightarrow> fst sp | _ \<Rightarrow> 0),
      array = map (map_option (substring txt)) spans\<rparr>"

definition execRegex :: "Regex \<Rightarrow> string \<Rightarrow> nat \<Rightarrow> RegExpExecArray option" where
  "execRegex r txt lastIndex = map_option (matchArray txt) (execSpans r txt lastIndex)"

definition engineOf :: "Regex \<Rightarrow> RegExpEngine" where
  \<comment> \<open>the engine that knows the one pattern \<open>r\<close>, by its source\<close>
  "engineOf r re txt lastIndex = (if re = source r then execRegex r txt lastIndex else None)"

fun splitLines :: "string \<Rightarrow> string list" where
  "splitLines [] = [[]]"
| "splitLines (c # cs) =
     (if c = CHR 0x0A then [] # splitLines cs
      else (case splitLines cs of l # ls \<Rightarrow> (c # l) # ls | [] \<Rightarrow> [[c]]))"

definition applyChange :: "TextDocument \<Rightarrow> TextDocumentContentChangeEvent \<Rightarrow> TextDocument" where
  \<comment> \<open>what the editor does to the lines of the document for one change\<close>
  "applyChange doc change =
     (let s = rstart (changeRange change); e = rend (changeRange change)
      in take (line s) doc @
         splitLines (take (character s) (doc ! line s) @ changeText change @
                     drop (character e) (doc ! line e)) @
         drop (Suc (line e)) doc)"

section \<open>Notions used in the statements\<close>

text \<open>
  The search position a loop iteration leaves behind for a match: the one
  \<^verbatim>\<open>getUglyFromMatch\<close> sets, or the engine's own when it sets none or throws. An
  engine advances when every match it reports is found at a search position inside the
  text and leaves the search position further right. (A pattern that matches the empty
  string does not advance, and the scanning loops then never end.)
\<close>

definition nextLastIndex :: "RegExpExecArray \<Rightarrow> nat" where
  "nextLastIndex match =
     (case getUglyFromMatch match 0 (execLastIndex match) of
        Inl e \<Rightarrow> execLastIndex match
      | Inr (u, lastIndex') \<Rightarrow> lastIndex')"

definition advances :: "RegExpEngine \<Rightarrow> bool" where
  "advances exec =
     (\<forall>re tx lastIndex match. exec re tx lastIndex = Some match \<longrightarrow>
        lastIndex \<le> length tx \<and> lastIndex < nextLastIndex match)"

text \<open>The two kinds of index the controller keeps: the aggregate one and one per rule.\<close>

definition indices :: "Controller \<Rightarrow> DisjointRangeSet \<times> DisjointRangeSet list" where
  "indices s = (uglyDecorationRanges s, map ranges (prettyDecorations s))"

section \<open>Concrete rules, documents and edits\<close>

text \<open>The rule \<^verbatim>\<open>->\<close> of the spec's scenarios, on the line \<^verbatim>\<open>a -> b\<close>.\<close>

definition arrow :: Regex where
  "arrow = NonCap (Cap (Lit ''->''))"

definition arrowRules :: "Substitution list" where
  "arrowRules = [\<lparr>ugly = ''->'', pretty = ''=>'', pre = None, post = None\<rparr>]"

definition arrowState :: Controller where
  "arrowState =
     \<lparr>document = [''a -> b''],
      prettyDecorations =
        [\<lparr>uglyRegExp = ''(->)'', prettyText = ''=>'',
          ranges = [Range (Position 0 2) (Position 0 4)]\<rparr>],
      prettySubstitutions = arrowRules,
      uglyAll = ''(?:(->))'',
      uglyDecorationRanges = [Range (Position 0 2) (Position 0 4)],
      changedUglies = True, redraws = 2, warnings = [], errors = []\<rparr>"

definition arrowEdit :: TextDocumentChangeEvent where
  \<comment> \<open>typing \<^verbatim>\<open>c\<close> at the end of the line\<close>
  "arrowEdit =
     \<lparr>eventDocument = [''a -> bc''],
      contentChanges =
        [\<lparr>changeRange = Range (Position 0 6) (Position 0 6), changeText = ''c''\<rparr>]\<rparr>"

text \<open>
  The rule of claim C3 as the spec words it: the last capturing group (entries 1, 2, ...
  of the match array) whose text is not empty.
\<close>

definition lastNonEmptyGroup :: "string option list \<Rightarrow> nat option" where
  "lastNonEmptyGroup xs =
     (case filter (\<lambda>(idx, value). 0 < idx \<and> value \<noteq> None \<and> value \<noteq> Some [])
             (enumerate 0 xs) of
        [] \<Rightarrow> None
      | e # es \<Rightarrow> Some (fst (last (e # es))))"

text \<open>
  A rule whose ugly pattern \<^verbatim>\<open>a()\<close> has a group of its own that matches the empty
  string: the pattern of all rules is \<^verbatim>\<open>(?:(a()))\<close>, and on the line \<^verbatim>\<open>a\<close> the
  engine reports group 1 as \<^verbatim>\<open>a\<close> and group 2 as the empty string.
\<close>

definition emptyGroupRegex :: Regex where
  "emptyGroupRegex = NonCap (Cap (Cat (Lit ''a'') (Cap (Lit []))))"

definition emptyGroupMatch :: RegExpExecArray where
  "emptyGroupMatch = \<lparr>index = 0, array = [Some ''a'', Some ''a'', Some []]\<rparr>"

text \<open>
  Two rules, \<^verbatim>\<open>a\<close> followed by the context \<^verbatim>\<open>b\<close>, and \<^verbatim>\<open>b\<close>: the pattern of all
  rules is \<^verbatim>\<open>(?:(a)(?:b))|(?:(b))\<close>. On the line \<^verbatim>\<open>ab\<close> the first match is the whole
  line, with group 1 the \<^verbatim>\<open>a\<close>.
\<close>

definition postContext :: Regex where
  "postContext =
     Alt (NonCap (Cat (Cap (Lit ''a'')) (NonCap (Lit ''b'')))) (NonCap (Cap (Lit ''b'')))"

definition postContextRules :: "Substitution list" where
  "postContextRules =
     [\<lparr>ugly = ''a'', pretty = ''A'', pre = None, post = Some ''b''\<rparr>,
      \<lparr>ugly = ''b'', pretty = ''B'', pre = None, post = None\<rparr>]"

definition postContextMatch :: RegExpExecArray where
  "postContextMatch = \<lparr>index = 0, array = [Some ''ab'', Some ''a'', None]\<rparr>"

text \<open>
  A configuration with a rule that does not compile, \<^verbatim>\<open>(x\<close>, between two that do. As
  the compiler, the least every engine checks: the parentheses of a pattern are balanced.
\<close>

fun balancedFrom :: "nat \<Rightarrow> string \<Rightarrow> bool" where
  "balancedFrom d [] = (d = 0)"
| "balancedFrom d (c # cs) =
     (if c = CHR ''('' then balancedFrom (Suc d) cs
      else if c = CHR '')'' then (d > 0 \<and> balancedFrom (d - 1) cs)
      else balancedFrom d cs)"

definition mixedRules :: "Substitution list" where
  "mixedRules =
     [\<lparr>ugly = ''->'', pretty = ''=>'', pre = None, post = None\<rparr>,
      \<lparr>ugly = ''(x'', pretty = ''X'', pre = None, post = None\<rparr>,
      \<lparr>ugly = ''q'', pretty = ''Q'', pre = Some ''p'', post = Some []\<rparr>]"

definition mixedState :: Controller where
  "mixedState =
     \<lparr>document = [''pq''], prettyDecorations = [], prettySubstitutions = mixedRules,
      uglyAll = [], uglyDecorationRanges = [], changedUglies = False,
      redraws = 0, warnings = [], errors = []\<rparr>"

text \<open>A pre-existing match that ends on the line of a position, at or before it (claim C4).\<close>

definition endsOnLineBefore :: "Position \<Rightarrow> Range \<Rightarrow> bool" where
  "endsOnLineBefore p r = (line (rend r) = line p \<and> isBeforeOrEqual (rend r) p)"

text \<open>
  The rules \<^verbatim>\<open>a-b\<close> and \<^verbatim>\<open>b\<close>. \<open>overrunState\<close> is the controller of the line
  \<^verbatim>\<open>x-b\<close> after its \<^verbatim>\<open>x\<close> has become an \<^verbatim>\<open>a\<close>, at the call of \<^verbatim>\<open>parsePretty\<close>: the
  match \<^verbatim>\<open>b\<close> at columns 2 to 3 is still stored.
\<close>

definition overrun :: Regex where
  "overrun = Alt (NonCap (Cap (Lit ''a-b''))) (NonCap (Cap (Lit ''b'')))"

definition overrunState :: Controller where
  "overrunState =
     \<lparr>document = [''a-b''],
      prettyDecorations =
        [\<lparr>uglyRegExp = ''(a-b)'', prettyText = ''A'', ranges = []\<rparr>,
         \<lparr>uglyRegExp = ''(b)'', prettyText = ''B'',
          ranges = [Range (Position 0 2) (Position 0 3)]\<rparr>],
      prettySubstitutions =
        [\<lparr>ugly = ''a-b'', pretty = ''A'', pre = None, post = None\<rparr>,
         \<lparr>ugly = ''b'', pretty = ''B'', pre = None, post = None\<rparr>],
      uglyAll = ''(?:(a-b))|(?:(b))'',
      uglyDecorationRanges = [Range (Position 0 2) (Position 0 3)],
      changedUglies = False, redraws = 2, warnings = [], errors = []\<rparr>"

text \<open>
  The controller of the line \<^verbatim>\<open>a -> b -> c\<close> after an \<^verbatim>\<open>x\<close> was typed at column 5,
  at the call of \<^verbatim>\<open>parsePretty\<close>: the second match has been shifted to columns 8 to 10.
\<close>

definition twoArrows :: Controller where
  "twoArrows =
     \<lparr>document = [''a -> xb -> c''],
      prettyDecorations =
        [\<lparr>uglyRegExp = ''(->)'', prettyText = ''=>'',
          ranges = [Range (Position 0 2) (Position 0 4), Range (Position 0 8) (Position 0 10)]\<rparr>],
      prettySubstitutions = arrowRules,
      uglyAll = ''(?:(->))'',
      uglyDecorationRanges =
        [Range (Position 0 2) (Position 0 4), Range (Position 0 8) (Position 0 10)],
      changedUglies = False, redraws = 2, warnings = [], errors = []\<rparr>"

text \<open>
  Two rules, \<^verbatim>\<open>a\<close> followed by the context \<^verbatim>\<open>xb\<close>, and \<^verbatim>\<open>q\<close>, on the line
  \<^verbatim>\<open>axb\<close>; the edit replaces the \<^verbatim>\<open>b\<close> at columns 2 to 3 by \<^verbatim>\<open>q\<close>.
  \<open>staleBefore\<close> is the controller before the edit.
\<close>

definition staleContext :: Regex where
  "staleContext =
     Alt (NonCap (Cat (Cap (Lit ''a'')) (NonCap (Lit ''xb'')))) (NonCap (Cap (Lit ''q'')))"

definition staleRules :: "Substitution list" where
  "staleRules =
     [\<lparr>ugly = ''a'', pretty = ''A'', pre = None, post = Some ''xb''\<rparr>,
      \<lparr>ugly = ''q'', pretty = ''Q'', pre = None, post = None\<rparr>]"

definition staleBefore :: Controller where
  "staleBefore =
     \<lparr>document = [''axb''],
      prettyDecorations =
        [\<lparr>uglyRegExp = ''(a)(?:xb)'', prettyText = ''A'',
          ranges = [Range (Position 0 0) (Position 0 1)]\<rparr>,
         \<lparr>uglyRegExp = ''(q)'', prettyText = ''Q'', ranges = []\<rparr>],
      prettySubstitutions = staleRules,
      uglyAll = ''(?:(a)(?:xb))|(?:(q))'',
      uglyDecorationRanges = [Range (Position 0 0) (Position 0 1)],
      changedUglies = True, redraws = 2, warnings = [], errors = []\<rparr>"

definition staleChange :: TextDocumentContentChangeEvent where
  "staleChange = \<lparr>changeRange = Range (Position 0 2) (Position 0 3), changeText = ''q''\<rparr>"

text \<open>
  One rule whose ugly pattern \<^verbatim>\<open>(a)\<close> has a capturing group of its own: the pattern
  of all rules is \<^verbatim>\<open>(?:((a)))\<close>, with two groups for the one rule.
\<close>

definition nestedGroup :: Regex where
  "nestedGroup = NonCap (Cap (Cap (Lit ''a'')))"

definition nestedRules :: "Substitution list" where
  "nestedRules = [\<lparr>ugly = ''(a)'', pretty = ''A'', pre = None, post = None\<rparr>]"

text \<open>
  An engine searches forward when every match it reports begins at or after the search
  position and the text of each group occurs in the whole match (patterns without
  lookaround). \<open>freshBefore p fresh\<close>: the fresh ranges end at or before \<open>p\<close>;
  \<open>linesBefore ln fresh\<close>: they end on lines before \<open>ln\<close>.
  \<open>lastLineReach\<close> relates a state of the loop over the last line (search position,
  what the iterator has left, fresh sets) to the states the loop comes to.
\<close>

definition searchesForward :: "RegExpEngine \<Rightarrow> bool" where
  "searchesForward exec =
     (\<forall>re tx li m. exec re tx li = Some m \<longrightarrow>
        li \<le> index m \<and>
        (\<forall>whole g. array m ! 0 = Some whole \<and> Some g \<in> set (array m) \<longrightarrow> 0 \<le> indexOf whole g))"

definition freshBefore :: "Position \<Rightarrow> Fresh \<Rightarrow> bool" where
  "freshBefore p fresh = list_all (\<lambda>r. isBeforeOrEqual (rend r) p) (fst fresh)"

definition linesBefore :: "nat \<Rightarrow> Fresh \<Rightarrow> bool" where
  "linesBefore ln fresh = list_all (\<lambda>r. line (rend r) < ln) (fst fresh)"

inductive lastLineReach ::
  "RegExpEngine \<Rightarrow> string \<Rightarrow> string \<Rightarrow> nat \<Rightarrow>
   nat \<times> Range list \<times> Fresh \<Rightarrow> nat \<times> Range list \<times> Fresh \<Rightarrow> bool"
  for exec re tx ln where
    reach_start: "lastLineReach exec re tx ln st st"
  | reach_step:
      "lastLineReach exec re tx ln st (li, pex, fresh) \<Longrightarrow>
       exec re tx li = Some m \<Longrightarrow>
       lastLineBody m ln pex fresh = Continue li' pex' fresh' \<Longrightarrow>
       lastLineReach exec re tx ln st (li', pex', fresh')"

text \<open>
  The rule \<^verbatim>\<open>a\<close> with the context \<^verbatim>\<open>a\<close> before it: the pattern of all rules is
  \<^verbatim>\<open>(?:(?:a)(a))\<close>, and on the line \<^verbatim>\<open>aa\<close> its group is the second \<^verbatim>\<open>a\<close>.
\<close>

definition preContext :: Regex where
  "preContext = NonCap (Cat (NonCap (Lit ''a'')) (Cap (Lit ''a'')))"



section \<open>Termination of the scanning loops\<close>

lemma getUglyFromMatch_line_Inr:
  "getUglyFromMatch m ln li = Inr (u, li') \<Longrightarrow> \<exists>u'. getUglyFromMatch m 0 li = Inr (u', li')"
  by (auto simp: getUglyFromMatch_def Let_def split: if_splits option.splits prod.splits)

lemma getUglyFromMatch_line_Inl:
  "getUglyFromMatch m ln li = Inl e \<Longrightarrow> getUglyFromMatch m 0 li = Inl e"
  by (auto simp: getUglyFromMatch_def Let_def split: if_splits option.splits prod.splits)

lemma scanLine_total:
  assumes "advances exec"
  shows "scanLine exec re tx idx lastIndex fresh \<noteq> None"
proof (induction "Suc (length tx) - lastIndex" arbitrary: lastIndex fresh rule: less_induct)
  case less
  show ?case
  proof (cases "exec re tx lastIndex")
    case None
    then show ?thesis by (subst scanLine.simps) simp
  next
    case (Some m)
    with assms have le: "lastIndex \<le> length tx" and lt: "lastIndex < nextLastIndex m"
      by (auto simp: advances_def)
    show ?thesis
    proof (cases "getUglyFromMatch m idx (execLastIndex m)")
      case (Inl e)
      with Some show ?thesis by (subst scanLine.simps) simp
    next
      case (Inr p)
      obtain u li' where p: "p = (u, li')" by (cases p)
      from Inr p getUglyFromMatch_line_Inr[of m idx "execLastIndex m" u li']
      have "nextLastIndex m = li'" by (auto simp: nextLastIndex_def)
      with lt le have dec: "Suc (length tx) - li' < Suc (length tx) - lastIndex" by arith
      show ?thesis
        using Some Inr p less[OF dec]
        by (subst scanLine.simps) (auto split: option.splits sum.splits)
    qed
  qed
qed

lemma lastLineBody_next:
  assumes c: "lastLineBody m ln pex fresh = Continue li' pex' fresh'"
  shows "li' = nextLastIndex m"
proof (cases "getUglyFromMatch m ln (execLastIndex m)")
  case (Inl e)
  with c getUglyFromMatch_line_Inl[OF Inl] show ?thesis
    by (simp add: lastLineBody_def nextLastIndex_def)
next
  case (Inr p)
  obtain u l where p: "p = (u, l)" by (cases p)
  from Inr p getUglyFromMatch_line_Inr[of m ln "execLastIndex m" u l]
  have "nextLastIndex m = l" by (auto simp: nextLastIndex_def)
  moreover from c Inr p have "li' = l"
    by (auto simp: lastLineBody_def Let_def split: option.splits if_splits)
  ultimately show ?thesis by simp
qed

lemma scanLastLine_total:
  assumes "advances exec"
  shows "scanLastLine exec re tx ln lastIndex pex fresh \<noteq> None"
proof (induction "Suc (length tx) - lastIndex" arbitrary: lastIndex pex fresh rule: less_induct)
  case less
  show ?case
  proof (cases "exec re tx lastIndex")
    case None
    then show ?thesis by (subst scanLastLine.simps) simp
  next
    case (Some m)
    with assms have le: "lastIndex \<le> length tx" and lt: "lastIndex < nextLastIndex m"
      by (auto simp: advances_def)
    show ?thesis
    proof (cases "lastLineBody m ln pex fresh")
      case Break
      with Some show ?thesis by (subst scanLastLine.simps) simp
    next
      case (Continue li' pex' fresh')
      from lastLineBody_next[OF Continue] lt le
      have dec: "Suc (length tx) - li' < Suc (length tx) - lastIndex" by arith
      show ?thesis
        using Some Continue less[OF dec]
        by (subst scanLastLine.simps) simp
    qed
  qed
qed

lemma scanLines_total:
  "advances exec \<Longrightarrow> scanLines exec re doc idxs lastIndex fresh \<noteq> None"
proof (induction idxs arbitrary: lastIndex fresh)
  case Nil
  then show ?case by simp
next
  case (Cons idx idxs)
  show ?case
    by (simp add: scanLine_total[OF Cons.prems] Cons.IH[OF Cons.prems, simplified]
             split: sum.splits option.splits)
qed

lemma parsePretty_total:
  assumes "advances exec"
  shows "parsePretty exec range0 s \<noteq> None"
  by (simp add: parsePretty_def scanRange_def Let_def scanLines_total[OF assms]
        scanLastLine_total[OF assms] split: sum.splits option.splits)

lemma processChanges_total:
  "advances exec \<Longrightarrow> processChanges exec changes s \<noteq> None"
proof (induction changes arbitrary: s)
  case Nil
  then show ?case by simp
next
  case (Cons c cs)
  have "processChange exec c s \<noteq> None"
    by (simp add: processChange_def Let_def parsePretty_total[OF Cons.prems]
             split: sum.splits option.splits prod.splits)
  then show ?case by (simp add: Cons.IH[OF Cons.prems, simplified] split: option.splits)
qed

text \<open>The engine of the pattern \<^verbatim>\<open>(?:(->))\<close> advances: each of its matches is two columns long.\<close>

lemma searchFrom_arrow:
  "searchFrom arrow tx i n = Some spans \<Longrightarrow>
   \<exists>a. i \<le> a \<and> spans = [Some (a, a + 2), Some (a, a + 2)] \<and> take 2 (drop a tx) = ''->''"
proof (induction n arbitrary: i)
  case 0
  then show ?case by simp
next
  case (Suc n)
  show ?case
  proof (cases "take (length ''->'') (drop i tx) = ''->''")
    case True
    with Suc.prems show ?thesis by (auto simp: arrow_def numeral_2_eq_2)
  next
    case False
    with Suc.prems have "searchFrom arrow tx (Suc i) n = Some spans" by (auto simp: arrow_def)
    from Suc.IH[OF this] show ?thesis by auto
  qed
qed

lemma engineOf_arrow:
  assumes "engineOf arrow re tx li = Some m"
  shows "li \<le> length tx \<and> li \<le> index m \<and> array m = [Some ''->'', Some ''->'']"
proof -
  from assms obtain spans where le: "li \<le> length tx"
    and sf: "searchFrom arrow tx li (Suc (length tx) - li) = Some spans"
    and m: "m = matchArray tx spans"
    by (auto simp: engineOf_def execRegex_def execSpans_def split: if_splits)
  from searchFrom_arrow[OF sf] obtain a where "li \<le> a"
    "spans = [Some (a, a + 2), Some (a, a + 2)]" "take 2 (drop a tx) = ''->''" by blast
  with le m show ?thesis by (simp add: matchArray_def substring_def)
qed

lemma advances_arrow: "advances (engineOf arrow)"
  unfolding advances_def
proof (intro allI impI)
  fix re tx lastIndex and m :: RegExpExecArray
  assume "engineOf arrow re tx lastIndex = Some m"
  from engineOf_arrow[OF this]
  have le: "lastIndex \<le> length tx" and "lastIndex \<le> index m"
    and a: "array m = [Some ''->'', Some ''->'']" by auto
  then have "lastIndex < nextLastIndex m"
    by (simp add: nextLastIndex_def getUglyFromMatch_def definedEntries_def execLastIndex_def
          Let_def enumerate_eq_zip)
  with le show "lastIndex \<le> length tx \<and> lastIndex < nextLastIndex m" by simp
qed

section \<open>The redraw after a change\<close>

lemma redraws_removeExtraOverlap: "redraws (removeExtraOverlap rng new s) = redraws s"
  by (simp add: removeExtraOverlap_def Let_def)

lemma redraws_mergeFresh: "redraws (mergeFresh rng fresh s) = redraws s"
  by (simp add: mergeFresh_def Let_def redraws_removeExtraOverlap)

lemma redraws_parsePretty:
  "parsePretty exec range0 s = Some (Inr (reparsed, s')) \<Longrightarrow> redraws s' = redraws s"
  by (auto simp: parsePretty_def Let_def redraws_mergeFresh
           split: sum.splits option.splits if_splits)

lemma redraws_processChange:
  "processChange exec c s = Some s' \<Longrightarrow> redraws s' = redraws s"
  by (auto simp: processChange_def Let_def split: sum.splits option.splits if_splits
           dest!: redraws_parsePretty)

lemma redraws_processChanges:
  "processChanges exec cs s = Some s' \<Longrightarrow> redraws s' = redraws s"
proof (induction cs arbitrary: s)
  case Nil
  then show ?case by simp
next
  case (Cons c cs)
  then show ?case by (auto split: option.splits dest: redraws_processChange)
qed

text \<open>
  Claim C8. \<^verbatim>\<open>onChangeDocument\<close> calls \<^verbatim>\<open>applyDecorations\<close> after the changes of
  an event, whether or not a match was added or removed: the guard is
  \<^verbatim>\<open>changedUglies || true\<close>. Every run of the handler that returns has made exactly
  one such call, whatever the event and the state, and the handler does return when the
  engine advances.
\<close>

theorem onChangeDocument_always_redraws:
  "(\<forall>s'. onChangeDocument exec event s = Some s' \<longrightarrow> redraws s' = Suc (redraws s)) \<and>
   (advances exec \<longrightarrow> onChangeDocument exec event s \<noteq> None)"
proof (intro conjI allI impI)
  fix s' assume "onChangeDocument exec event s = Some s'"
  then show "redraws s' = Suc (redraws s)"
    by (auto simp: onChangeDocument_def applyDecorations_def split: option.splits
             dest!: redraws_processChanges)
next
  assume "advances exec"
  then show "onChangeDocument exec event s \<noteq> None"
    by (simp add: onChangeDocument_def processChanges_total split: option.splits)
qed

text \<open>
  An edit that adds and removes no match (typing at the end of \<^verbatim>\<open>a -> b\<close>) leaves
  \<^verbatim>\<open>changedUglies\<close> false, and the redraw is requested all the same.
\<close>

theorem onChangeDocument_always_redraws_witness:
  "advances (engineOf arrow) \<and>
   onChangeDocument (engineOf arrow) arrowEdit arrowState =
     Some (arrowState\<lparr>document := [''a -> bc''], changedUglies := False, redraws := 3\<rparr>) \<and>
   redraws arrowState = 2"
proof -
  have run: "onChangeDocument (engineOf arrow) arrowEdit arrowState =
     Some (arrowState\<lparr>document := [''a -> bc''], changedUglies := False, redraws := 3\<rparr>)"
    by code_simp
  have r: "redraws arrowState = 2" by (simp add: arrowState_def)
  from onChangeDocument_always_redraws[of "engineOf arrow" arrowEdit arrowState] advances_arrow run r
  show ?thesis by simp
qed

section \<open>Scanning without rules\<close>

text \<open>
  Claim C9. With no compiled rule \<^verbatim>\<open>parsePretty\<close> returns the range it was given,
  as it is (not clamped to the document), and the controller with all its range sets is
  unchanged.
\<close>

theorem parsePretty_without_rules:
  "prettyDecorations s = [] \<Longrightarrow> parsePretty exec rng s = Some (Inr (rng, s))"
  by (simp add: parsePretty_def)

theorem parsePretty_without_rules_witness:
  "prettyDecorations (arrowState\<lparr>prettyDecorations := []\<rparr>) = [] \<and>
   parsePretty (engineOf arrow) (Range (Position 0 0) (Position 7 0))
       (arrowState\<lparr>prettyDecorations := []\<rparr>) =
     Some (Inr (Range (Position 0 0) (Position 7 0), arrowState\<lparr>prettyDecorations := []\<rparr>)) \<and>
   validateRange (document (arrowState\<lparr>prettyDecorations := []\<rparr>))
       (Range (Position 0 0) (Position 7 0)) = Range (Position 0 0) (Position 0 6)"
proof -
  have e: "prettyDecorations (arrowState\<lparr>prettyDecorations := []\<rparr>) = []" by simp
  have v: "validateRange (document (arrowState\<lparr>prettyDecorations := []\<rparr>))
       (Range (Position 0 0) (Position 7 0)) = Range (Position 0 0) (Position 0 6)"
    by (simp add: arrowState_def validateRange_def validatePosition_def newRange_def isBefore_def)
  from parsePretty_without_rules[OF e, of "engineOf arrow" "Range (Position 0 0) (Position 7 0)"] e v
  show ?thesis by simp
qed

section \<open>Loading the rules\<close>

lemma loadRules_filter:
  "loadRules compiles subs (ds, us, ws) =
     (ds @ map (\<lambda>p. \<lparr>uglyRegExp = uglyStrOf p, prettyText = pretty p, ranges = []\<rparr>)
             (filter (\<lambda>p. compiles (uglyStrOf p)) subs),
      us @ map (\<lambda>p. ''(?:'' @ uglyStrOf p @ '')'') (filter (\<lambda>p. compiles (uglyStrOf p)) subs),
      ws @ map ruleWarning (filter (\<lambda>p. \<not> compiles (uglyStrOf p)) subs))"
  by (induction subs arbitrary: ds us ws) (simp_all add: Let_def)

text \<open>
  Claim C7. \<^verbatim>\<open>loadDecorations\<close> keeps exactly the substitutions whose assembled
  pattern compiles, in their order: they make up \<^verbatim>\<open>prettyDecorations\<close> and the
  alternatives of \<^verbatim>\<open>uglyAll\<close>. Each other substitution adds one warning and nothing
  else, and its failure does not reach the caller: \<^verbatim>\<open>loadDecorations\<close> returns
  whenever the pattern of the rules that are left compiles.
\<close>

theorem loadDecorations_drops_invalid_rules:
  "loadDecorations compiles s =
     (let valid = filter (\<lambda>p. compiles (uglyStrOf p)) (prettySubstitutions s);
          invalid = filter (\<lambda>p. \<not> compiles (uglyStrOf p)) (prettySubstitutions s);
          combined = join ''|'' (map (\<lambda>p. ''(?:'' @ uglyStrOf p @ '')'') valid)
      in if compiles combined
         then Inr (s\<lparr>prettyDecorations :=
                       map (\<lambda>p. \<lparr>uglyRegExp = uglyStrOf p, prettyText = pretty p, ranges = []\<rparr>)
                           valid,
                     uglyAll := combined,
                     uglyDecorationRanges := [],
                     redraws := Suc (redraws s),
                     warnings := warnings s @ map ruleWarning invalid\<rparr>)
         else Inl SyntaxError)"
  by (simp add: loadDecorations_def Let_def loadRules_filter unloadDecorations_def
        applyDecorations_def)

theorem loadDecorations_drops_invalid_rules_witness:
  "loadDecorations (balancedFrom 0) mixedState =
     Inr (mixedState
           \<lparr>prettyDecorations :=
              [\<lparr>uglyRegExp = ''(->)'', prettyText = ''=>'', ranges = []\<rparr>,
               \<lparr>uglyRegExp = ''(?:p)(q)'', prettyText = ''Q'', ranges = []\<rparr>],
            uglyAll := ''(?:(->))|(?:(?:p)(q))'',
            redraws := 1,
            warnings := [ruleWarning \<lparr>ugly = ''(x'', pretty = ''X'', pre = None, post = None\<rparr>]\<rparr>)"
  unfolding loadDecorations_drops_invalid_rules
  by (simp add: mixedState_def mixedRules_def uglyStrOf_def regexpOptionalGroup_def)

section \<open>Which rule a match is credited to\<close>

lemma definedEntries_snoc:
  "definedEntries (xs @ [x]) = definedEntries xs @ (if x \<noteq> None then [(length xs, x)] else [])"
  by (simp add: definedEntries_def enumerate_append_eq)

lemma last_definedEntries:
  "definedEntries xs \<noteq> [] \<Longrightarrow>
   fst (last (definedEntries xs)) < length xs \<and> xs ! fst (last (definedEntries xs)) \<noteq> None \<and>
   (\<forall>j. fst (last (definedEntries xs)) < j \<and> j < length xs \<longrightarrow> xs ! j = None)"
proof (induction xs rule: rev_induct)
  case Nil
  then show ?case by (simp add: definedEntries_def)
next
  case (snoc x xs)
  show ?case
  proof (cases "x = None")
    case True
    with snoc.prems have ne: "definedEntries xs \<noteq> []" by (simp add: definedEntries_snoc)
    from snoc.IH[OF ne] True show ?thesis
      by (auto simp: definedEntries_snoc nth_append less_Suc_eq)
  next
    case False
    then show ?thesis by (auto simp: definedEntries_snoc nth_append)
  qed
qed

lemma no_definedEntries:
  "(\<forall>j < length ys. ys ! j = None) \<Longrightarrow>
   filter (\<lambda>(idx, value). value \<noteq> None) (enumerate n ys) = []"
  by (auto simp: filter_empty_conv in_set_enumerate_eq)

lemma last_definedEntries_pos:
  assumes "length (definedEntries xs) > 1"
  shows "0 < fst (last (definedEntries xs))"
proof (rule ccontr)
  assume "\<not> 0 < fst (last (definedEntries xs))"
  then have z: "fst (last (definedEntries xs)) = 0" by simp
  from assms have ne: "definedEntries xs \<noteq> []" by auto
  from last_definedEntries[OF ne] z
  have none: "\<forall>j. 0 < j \<and> j < length xs \<longrightarrow> xs ! j = None" by simp
  show False
  proof (cases xs)
    case Nil
    with assms show False by (simp add: definedEntries_def)
  next
    case (Cons y ys)
    with none have "\<forall>j < length ys. ys ! j = None" by auto
    from no_definedEntries[OF this, of "Suc 0"] Cons assms show False
      by (simp add: definedEntries_def split: if_splits)
  qed
qed

lemma indexOf_le: "indexOf h n \<le> int (length h)"
  by (induction h) (auto simp: Let_def)

lemma indexOf_found:
  "0 \<le> indexOf h n \<Longrightarrow> take (length n) (drop (nat (indexOf h n)) h) = n"
proof (induction h)
  case Nil
  then show ?case by (auto split: if_splits)
next
  case (Cons c cs)
  show ?case
  proof (cases "take (length n) (c # cs) = n")
    case True
    then show ?thesis by simp
  next
    case False
    with Cons.prems have nn: "0 \<le> indexOf cs n" by (auto simp: Let_def split: if_splits)
    with False have "indexOf (c # cs) n = indexOf cs n + 1" by (simp add: Let_def)
    with nn Cons.IH[OF nn] show ?thesis by (simp add: nat_add_distrib)
  qed
qed

lemma indexOf_within:
  assumes a: "0 \<le> indexOf h n"
  shows "nat (indexOf h n) + length n \<le> length h"
proof -
  from indexOf_found[OF a]
  have "length (take (length n) (drop (nat (indexOf h n)) h)) = length n" by simp
  with indexOf_le[of h n] a show ?thesis by (simp add: min_def split: if_splits)
qed

lemma take_drop_take:
  "i + n \<le> L \<Longrightarrow> take n (drop i (take L xs)) = take n (drop i xs)"
  by (simp add: drop_take min_def)

text \<open>What \<^verbatim>\<open>getUglyFromMatch\<close> returns when it credits a match.\<close>

lemma getUglyFromMatch_Some:
  assumes "getUglyFromMatch m ln li = Inr (Some u, li')"
  shows "\<exists>g whole.
     Suc (prettyIndex u) < length (array m) \<and> array m ! Suc (prettyIndex u) = Some g \<and>
     (\<forall>j. Suc (prettyIndex u) < j \<and> j < length (array m) \<longrightarrow> array m ! j = None) \<and>
     array m ! 0 = Some whole \<and> 0 \<le> int (index m) + indexOf whole g \<and>
     uglyRange u = Range (Position ln (nat (int (index m) + indexOf whole g)))
                         (Position ln (nat (int (index m) + indexOf whole g) + length g)) \<and>
     li' = nat (int (index m) + indexOf whole g) + length g"
proof -
  from assms have len: "length (definedEntries (array m)) > 1"
    by (auto simp: getUglyFromMatch_def Let_def split: if_splits)
  then have ne: "definedEntries (array m) \<noteq> []" by auto
  let ?k = "fst (last (definedEntries (array m)))"
  from last_definedEntries[OF ne] last_definedEntries_pos[OF len]
  have k: "?k < length (array m)" "array m ! ?k \<noteq> None" "0 < ?k"
    and later: "\<forall>j. ?k < j \<and> j < length (array m) \<longrightarrow> array m ! j = None" by auto
  from k obtain g where g: "array m ! ?k = Some g" by auto
  from assms len g obtain whole where w: "array m ! 0 = Some whole"
    by (auto simp: getUglyFromMatch_def Let_def split: if_splits option.splits)
  from assms len g w have nn: "0 \<le> int (index m) + indexOf whole g"
    and u: "u = \<lparr>uglyRange = Range (Position ln (nat (int (index m) + indexOf whole g)))
                         (Position ln (nat (int (index m) + indexOf whole g + int (length g)))),
              prettyIndex = ?k - 1\<rparr>"
    and l: "li' = nat (int (index m) + indexOf whole g + int (length g))"
    by (auto simp: getUglyFromMatch_def Let_def split: if_splits option.splits)
  from u k have pk: "Suc (prettyIndex u) = ?k" by simp
  from nn have e: "nat (int (index m) + indexOf whole g + int (length g)) =
                   nat (int (index m) + indexOf whole g) + length g"
    by (simp add: nat_add_distrib)
  show ?thesis using k later g w nn u l pk e by auto
qed

text \<open>
  What \<^verbatim>\<open>getUglyFromMatch\<close> computes. The rule credited with a match is the number,
  less one, of the last entry of the match array that is not \<^verbatim>\<open>undefined\<close>, whether its
  text is empty or not. The recorded range lies on the matched line and is as long as that
  entry's text; and when that text occurs in the whole match, the text of the line under
  the recorded range is that text.
\<close>

lemma getUglyFromMatch_last_defined_entry:
  assumes "getUglyFromMatch m ln li = Inr (Some u, li')"
  shows "Suc (prettyIndex u) < length (array m) \<and>
         array m ! Suc (prettyIndex u) \<noteq> None \<and>
         (\<forall>j. Suc (prettyIndex u) < j \<and> j < length (array m) \<longrightarrow> array m ! j = None) \<and>
         line (rstart (uglyRange u)) = ln \<and> line (rend (uglyRange u)) = ln \<and>
         character (rend (uglyRange u)) =
           character (rstart (uglyRange u)) + length (the (array m ! Suc (prettyIndex u))) \<and>
         (\<forall>tx whole.
            array m ! 0 = Some whole \<and> take (length whole) (drop (index m) tx) = whole \<and>
            0 \<le> indexOf whole (the (array m ! Suc (prettyIndex u))) \<longrightarrow>
            take (length (the (array m ! Suc (prettyIndex u))))
                 (drop (character (rstart (uglyRange u))) tx) =
              the (array m ! Suc (prettyIndex u)))"
proof -
  from getUglyFromMatch_Some[OF assms] obtain g whole where
    k: "Suc (prettyIndex u) < length (array m)" and g: "array m ! Suc (prettyIndex u) = Some g"
    and later: "\<forall>j. Suc (prettyIndex u) < j \<and> j < length (array m) \<longrightarrow> array m ! j = None"
    and w: "array m ! 0 = Some whole"
    and r: "uglyRange u = Range (Position ln (nat (int (index m) + indexOf whole g)))
                         (Position ln (nat (int (index m) + indexOf whole g) + length g))"
    by blast
  have "take (length g) (drop (character (rstart (uglyRange u))) tx) = g"
    if t: "take (length whole) (drop (index m) tx) = whole" and i: "0 \<le> indexOf whole g" for tx
  proof -
    from i have c: "character (rstart (uglyRange u)) = index m + nat (indexOf whole g)"
      by (simp add: r nat_add_distrib)
    have "take (length g) (drop (nat (indexOf whole g)) (take (length whole) (drop (index m) tx))) =
          take (length g) (drop (nat (indexOf whole g)) (drop (index m) tx))"
      by (rule take_drop_take) (rule indexOf_within[OF i])
    with t indexOf_found[OF i] show ?thesis by (simp add: c add.commute)
  qed
  with k g later w r show ?thesis by auto
qed

lemma getUglyFromMatch_last_defined_entry_run:
  "getUglyFromMatch postContextMatch 0 2 =
     Inr (Some \<lparr>uglyRange = Range (Position 0 0) (Position 0 1), prettyIndex = 0\<rparr>, 1) \<and>
   array postContextMatch ! Suc 0 = Some ''a'' \<and>
   array postContextMatch ! 2 = None \<and> length (array postContextMatch) = 3 \<and>
   take (length ''a'') (drop 0 ''ab'') = ''a''"
proof -
  have h: "getUglyFromMatch postContextMatch 0 2 =
     Inr (Some \<lparr>uglyRange = Range (Position 0 0) (Position 0 1), prettyIndex = 0\<rparr>, 1)"
    by code_simp
  from getUglyFromMatch_last_defined_entry[OF h] h show ?thesis
    by (simp add: postContextMatch_def)
qed

text \<open>
  With the rule \<^verbatim>\<open>a()\<close> on the line \<^verbatim>\<open>a\<close> the loop over the last line comes back to
  the search position 0 after every match, and never ends.
\<close>

lemma emptyGroup_scan_never_ends:
  "scanLastLine (engineOf emptyGroupRegex) ''(?:(a()))'' ''a'' 0 0 [] fresh = None"
proof (cases "scanLastLine (engineOf emptyGroupRegex) ''(?:(a()))'' ''a'' 0 0 [] fresh")
  case None
  then show ?thesis .
next
  case (Some y)
  have e: "engineOf emptyGroupRegex ''(?:(a()))'' ''a'' 0 = Some emptyGroupMatch" by code_simp
  have g: "getUglyFromMatch emptyGroupMatch 0 (execLastIndex emptyGroupMatch) =
     Inr (Some \<lparr>uglyRange = Range (Position 0 0) (Position 0 0), prettyIndex = 1\<rparr>, 0)"
    by code_simp
  have "exec = engineOf emptyGroupRegex \<and> re = ''(?:(a()))'' \<and> tx = ''a'' \<and> ln = 0 \<and>
        li = 0 \<and> pex = [] \<longrightarrow> False"
    if "scanLastLine exec re tx ln li pex fr = Some z" for exec re tx ln li pex fr z
  proof (rule scanLastLine.raw_induct
           [where P = "\<lambda>exec re tx ln li pex fr z.
                        exec = engineOf emptyGroupRegex \<and> re = ''(?:(a()))'' \<and> tx = ''a'' \<and>
                        ln = 0 \<and> li = 0 \<and> pex = [] \<longrightarrow> False",
            OF _ that], goal_cases)
    case (1 f exec re tx ln lastIndex pex fr z)
    show ?case
    proof
      assume a: "exec = engineOf emptyGroupRegex \<and> re = ''(?:(a()))'' \<and> tx = ''a'' \<and>
                 ln = 0 \<and> lastIndex = 0 \<and> pex = []"
      from g have "lastLineBody emptyGroupMatch 0 [] fr =
          Continue 0 [] (insertCandidate \<lparr>uglyRange = Range (Position 0 0) (Position 0 0),
                                           prettyIndex = 1\<rparr> fr)"
        by (simp add: lastLineBody_def)
      with "1"(2) a e have "f exec re tx ln 0 []
          (insertCandidate \<lparr>uglyRange = Range (Position 0 0) (Position 0 0), prettyIndex = 1\<rparr> fr) =
          Some z" by simp
      from "1"(1)[OF this] a show False by simp
    qed
  qed
  from this[OF Some] show ?thesis by simp
qed

text \<open>
  Claim C3 (the rule credited and the range recorded are those of the last non-empty
  capturing group) on the rule \<^verbatim>\<open>a()\<close> and the line \<^verbatim>\<open>a\<close>. The match has group 1,
  the \<^verbatim>\<open>a\<close> at columns 0 to 1, and group 2, the empty string at column 1; the last
  non-empty group is group 1, the group of rule number 0. \<^verbatim>\<open>getUglyFromMatch\<close> takes
  the last group that is not \<^verbatim>\<open>undefined\<close>, group 2: it credits rule number 1, which
  does not exist, records the empty range at column 0 and sets the search position back
  to 0, so that the scan of the constructor never returns.
\<close>

theorem getUglyFromMatch_credits_empty_group:
  "source emptyGroupRegex = ''(?:(a()))'' \<and>
   execSpans emptyGroupRegex ''a'' 0 = Some [Some (0, 1), Some (0, 1), Some (1, 1)] \<and>
   execRegex emptyGroupRegex ''a'' 0 = Some emptyGroupMatch \<and>
   array emptyGroupMatch = [Some ''a'', Some ''a'', Some []] \<and>
   lastNonEmptyGroup (array emptyGroupMatch) = Some 1 \<and>
   getUglyFromMatch emptyGroupMatch 0 (execLastIndex emptyGroupMatch) =
     Inr (Some \<lparr>uglyRange = Range (Position 0 0) (Position 0 0), prettyIndex = 1\<rparr>, 0) \<and>
   newController (\<lambda>re. True) (engineOf emptyGroupRegex) [''a'']
       [\<lparr>ugly = ''a()'', pretty = ''A'', pre = None, post = None\<rparr>] = None"
proof -
  let ?s0 = "\<lparr>document = [''a''],
              prettyDecorations = [\<lparr>uglyRegExp = ''(a())'', prettyText = ''A'', ranges = []\<rparr>],
              prettySubstitutions = [\<lparr>ugly = ''a()'', pretty = ''A'', pre = None, post = None\<rparr>],
              uglyAll = ''(?:(a()))'', uglyDecorationRanges = [], changedUglies = False,
              redraws = Suc 0, warnings = [], errors = []\<rparr>"
  have c: "source emptyGroupRegex = ''(?:(a()))'' \<and>
   execSpans emptyGroupRegex ''a'' 0 = Some [Some (0, 1), Some (0, 1), Some (1, 1)] \<and>
   execRegex emptyGroupRegex ''a'' 0 = Some emptyGroupMatch \<and>
   array emptyGroupMatch = [Some ''a'', Some ''a'', Some []] \<and>
   lastNonEmptyGroup (array emptyGroupMatch) = Some 1 \<and>
   getUglyFromMatch emptyGroupMatch 0 (execLastIndex emptyGroupMatch) =
     Inr (Some \<lparr>uglyRange = Range (Position 0 0) (Position 0 0), prettyIndex = 1\<rparr>, 0)"
    by code_simp
  have ld: "loadDecorations (\<lambda>re. True)
             \<lparr>document = [''a''], prettyDecorations = [],
              prettySubstitutions = [\<lparr>ugly = ''a()'', pretty = ''A'', pre = None, post = None\<rparr>],
              uglyAll = [], uglyDecorationRanges = [], changedUglies = False,
              redraws = 0, warnings = [], errors = []\<rparr> = Inr ?s0"
    by code_simp
  have v: "validateRange (document ?s0) (docRange (document ?s0)) =
           Range (Position 0 0) (Position 0 1)" by code_simp
  have sc: "scanStart ?s0 (Range (Position 0 0) (Position 0 1)) = 0" by code_simp
  have la: "lineAt [''a''] 0 = Inr ''a''" by code_simp
  have gr: "getRangesStartingAt p [] = []" for p by (simp add: getRangesStartingAt_def)
  have sr: "scanRange (engineOf emptyGroupRegex) (Range (Position 0 0) (Position 0 1)) 0 ?s0 = None"
    unfolding scanRange_def by (simp add: la gr emptyGroup_scan_never_ends)
  have "parsePretty (engineOf emptyGroupRegex) (docRange (document ?s0)) ?s0 = None"
    unfolding parsePretty_def Let_def v sc sr by simp
  with ld have "newController (\<lambda>re. True) (engineOf emptyGroupRegex) [''a'']
       [\<lparr>ugly = ''a()'', pretty = ''A'', pre = None, post = None\<rparr>] = None"
    by (simp add: newController_def)
  with c show ?thesis by blast
qed

section \<open>Where the search goes on after a match\<close>

text \<open>
  When a match is credited to a rule, the search position is set to the end column of
  the recorded ugly range. That is at or before the end of the whole match (when the
  group's text occurs in the whole match), and the next \<^verbatim>\<open>exec\<close> of either loop starts
  there, so what the match took as context after the ugly text is searched again.
\<close>

lemma getUglyFromMatch_sets_lastIndex:
  assumes "exec re tx li = Some m"
    and "getUglyFromMatch m idx (execLastIndex m) = Inr (Some u, li')"
  shows "li' = character (rend (uglyRange u)) \<and>
         (\<forall>whole. array m ! 0 = Some whole \<and>
                   0 \<le> indexOf whole (the (array m ! Suc (prettyIndex u))) \<longrightarrow>
                   li' \<le> execLastIndex m) \<and>
         scanLine exec re tx idx li fresh =
           (case insertPretty u (insertUgly u fresh) of
              Inl e \<Rightarrow> Some (Inl e)
            | Inr fresh' \<Rightarrow> scanLine exec re tx idx (character (rend (uglyRange u))) fresh') \<and>
         (lastLineBody m idx pex fresh = Break \<or>
          (\<exists>pex' fresh'. lastLineBody m idx pex fresh =
                Continue (character (rend (uglyRange u))) pex' fresh'))"
proof -
  from getUglyFromMatch_Some[OF assms(2)] obtain g whole where
    g: "array m ! Suc (prettyIndex u) = Some g"
    and k: "Suc (prettyIndex u) < length (array m)"
    and w: "array m ! 0 = Some whole"
    and r: "uglyRange u = Range (Position idx (nat (int (index m) + indexOf whole g)))
                         (Position idx (nat (int (index m) + indexOf whole g) + length g))"
    and l: "li' = nat (int (index m) + indexOf whole g) + length g"
    by blast
  from r l have 1: "li' = character (rend (uglyRange u))" by simp
  have 2: "li' \<le> execLastIndex m" if "0 \<le> indexOf whole g"
  proof -
    from k have "array m \<noteq> []" by auto
    with w have "execLastIndex m = index m + length whole"
      by (cases "array m") (auto simp: execLastIndex_def)
    with indexOf_within[OF that] that l show ?thesis by (simp add: nat_add_distrib)
  qed
  have 3: "scanLine exec re tx idx li fresh =
           (case insertPretty u (insertUgly u fresh) of
              Inl e \<Rightarrow> Some (Inl e)
            | Inr fresh' \<Rightarrow> scanLine exec re tx idx (character (rend (uglyRange u))) fresh')"
    using assms 1 by (subst scanLine.simps) (simp split: sum.splits)
  have 4: "lastLineBody m idx pex fresh = Break \<or>
          (\<exists>pex' fresh'. lastLineBody m idx pex fresh =
                Continue (character (rend (uglyRange u))) pex' fresh')"
    using assms(2) 1 by (auto simp: lastLineBody_def Let_def split: sum.splits)
  from 1 2 3 4 g w show ?thesis by auto
qed

text \<open>
  On the line \<^verbatim>\<open>ab\<close> the first match is \<^verbatim>\<open>ab\<close> with the ugly text \<^verbatim>\<open>a\<close>: the search
  goes on at column 1, not 2, the next match is the \<^verbatim>\<open>b\<close> at column 1, and the scan
  of the document records both.
\<close>

lemma scan_goes_on_in_context:
  "engineOf postContext (source postContext) ''ab'' 0 = Some postContextMatch \<and>
   getUglyFromMatch postContextMatch 0 (execLastIndex postContextMatch) =
     Inr (Some \<lparr>uglyRange = Range (Position 0 0) (Position 0 1), prettyIndex = 0\<rparr>, 1) \<and>
   execLastIndex postContextMatch = 2 \<and>
   engineOf postContext (source postContext) ''ab'' 1 =
     Some \<lparr>index = 1, array = [Some ''b'', None, Some ''b'']\<rparr> \<and>
   map_option (map_sum id indices)
       (newController (\<lambda>re. True) (engineOf postContext) [''ab''] postContextRules) =
     Some (Inr ([Range (Position 0 0) (Position 0 1), Range (Position 0 1) (Position 0 2)],
                [[Range (Position 0 0) (Position 0 1)], [Range (Position 0 1) (Position 0 2)]]))"
proof -
  have e: "engineOf postContext (source postContext) ''ab'' 0 = Some postContextMatch"
    by code_simp
  have h: "getUglyFromMatch postContextMatch 0 (execLastIndex postContextMatch) =
     Inr (Some \<lparr>uglyRange = Range (Position 0 0) (Position 0 1), prettyIndex = 0\<rparr>, 1)"
    by code_simp
  have x: "execLastIndex postContextMatch = 2" by code_simp
  have n: "engineOf postContext (source postContext) ''ab'' 1 =
     Some \<lparr>index = 1, array = [Some ''b'', None, Some ''b'']\<rparr>"
    by code_simp
  have c: "map_option (map_sum id indices)
       (newController (\<lambda>re. True) (engineOf postContext) [''ab''] postContextRules) =
     Some (Inr ([Range (Position 0 0) (Position 0 1), Range (Position 0 1) (Position 0 2)],
                [[Range (Position 0 0) (Position 0 1)], [Range (Position 0 1) (Position 0 2)]]))"
    by code_simp
  from getUglyFromMatch_sets_lastIndex
         [where exec = "engineOf postContext" and re = "source postContext" and tx = "''ab''"
            and li = 0, OF e h]
       e h x n c
  show ?thesis by simp
qed

text \<open>
  Claim C10 (the search position is set to the end of the matched ugly capture group)
  on the rule \<^verbatim>\<open>a\<close> after the context \<^verbatim>\<open>a\<close> and the line \<^verbatim>\<open>aa\<close>. The match array
  holds the texts of the groups, not their places, and \<^verbatim>\<open>getUglyFromMatch\<close> takes
  the first place of the group's text in the whole match. The group of the match is the
  second \<^verbatim>\<open>a\<close>, columns 1 to 2; the range recorded is the first \<^verbatim>\<open>a\<close>, columns 0 to
  1, and the search position is set to column 1, where the group begins. On the line
  \<^verbatim>\<open>aaa\<close> the scan so records columns 0 to 1 and 1 to 2, and the groups are at columns
  1 to 2 and 2 to 3.
\<close>

theorem getUglyFromMatch_lastIndex_before_group_end:
  "source preContext = ''(?:(?:a)(a))'' \<and>
   execSpans preContext ''aa'' 0 = Some [Some (0, 2), Some (1, 2)] \<and>
   execRegex preContext ''aa'' 0 = Some \<lparr>index = 0, array = [Some ''aa'', Some ''a'']\<rparr> \<and>
   getUglyFromMatch \<lparr>index = 0, array = [Some ''aa'', Some ''a'']\<rparr> 0 2 =
     Inr (Some \<lparr>uglyRange = Range (Position 0 0) (Position 0 1), prettyIndex = 0\<rparr>, 1) \<and>
   execSpans preContext ''aaa'' 1 = Some [Some (1, 3), Some (2, 3)] \<and>
   map_option (map_sum id indices)
       (newController (\<lambda>re. True) (engineOf preContext) [''aaa'']
          [\<lparr>ugly = ''a'', pretty = ''A'', pre = Some ''a'', post = None\<rparr>]) =
     Some (Inr ([Range (Position 0 0) (Position 0 1), Range (Position 0 1) (Position 0 2)],
                [[Range (Position 0 0) (Position 0 1), Range (Position 0 1) (Position 0 2)]]))"
  by code_simp

section \<open>The start of a scan, the reconciliation on the last line, the merge\<close>

lemma isBefore_irrefl: "\<not> isBefore a a"
  by (simp add: isBefore_def)

lemma isBefore_trans: "isBefore a b \<Longrightarrow> isBefore b c \<Longrightarrow> isBefore a c"
  by (auto simp: isBefore_def)

lemma isBefore_total: "isBefore a b \<or> a = b \<or> isBefore b a"
  by (cases a; cases b) (auto simp: isBefore_def)

lemma isBeforeOrEqual_refl: "isBeforeOrEqual a a"
  by (simp add: isBeforeOrEqual_def)

lemma isBeforeOrEqual_trans: "isBeforeOrEqual a b \<Longrightarrow> isBeforeOrEqual b c \<Longrightarrow> isBeforeOrEqual a c"
  by (auto simp: isBeforeOrEqual_def dest: isBefore_trans)

lemma not_isBefore: "(\<not> isBefore a b) = isBeforeOrEqual b a"
  by (cases a; cases b) (auto simp: isBeforeOrEqual_def isBefore_def)

lemma isBeforeOrEqual_line: "isBeforeOrEqual a b \<Longrightarrow> line a \<le> line b"
  by (auto simp: isBeforeOrEqual_def isBefore_def)

lemma newRange_ordered: "isBeforeOrEqual (rstart (newRange a b)) (rend (newRange a b))"
  using isBefore_total[of a b] by (auto simp: newRange_def isBeforeOrEqual_def)

lemma newRange_id: "isBeforeOrEqual a b \<Longrightarrow> newRange a b = Range a b"
  by (auto simp: newRange_def isBeforeOrEqual_def)

lemma validateRange_ordered:
  "isBeforeOrEqual (rstart r) (rend r) \<Longrightarrow>
   isBeforeOrEqual (rstart (validateRange doc r)) (rend (validateRange doc r))"
  by (simp add: validateRange_def Let_def newRange_ordered)

lemma set_takeWhile_dropWhile: "set (takeWhile P rs) \<union> set (dropWhile P rs) = set rs"
  by (simp only: set_append[symmetric] takeWhile_dropWhile_id)

lemma set_insertRange:
  "set (insertRange r rs) = (if list_ex (rangesOverlap r) rs then set rs else insert r (set rs))"
  using set_takeWhile_dropWhile[of "\<lambda>x. isBefore (rstart x) (rstart r)" rs]
  by (auto simp: insertRange_def)

lemma insertRange_subset: "set (insertRange r rs) \<subseteq> insert r (set rs)"
  by (auto simp: set_insertRange)

lemma insertRange_keeps: "set rs \<subseteq> set (insertRange r rs)"
  by (auto simp: set_insertRange)

lemma set_insertRanges: "set (insertRanges other rs) \<subseteq> set other \<union> set rs"
  unfolding insertRanges_def
proof (induction other arbitrary: rs)
  case Nil
  then show ?case by simp
next
  case (Cons r other)
  from Cons.IH[of "insertRange r rs"] insertRange_subset[of r rs] show ?case by auto
qed

lemma insertRanges_keeps: "set rs \<subseteq> set (insertRanges other rs)"
  unfolding insertRanges_def
proof (induction other arbitrary: rs)
  case Nil
  then show ?case by simp
next
  case (Cons r other)
  from Cons.IH[of "insertRange r rs"] insertRange_keeps[of rs r] show ?case by auto
qed

lemma fold_closerPreceding:
  "fold closerPreceding cs c \<in> set (c # cs) \<and>
   (\<forall>r \<in> set (c # cs). isBeforeOrEqual (rend r) (rend (fold closerPreceding cs c)))"
proof (induction cs arbitrary: c)
  case Nil
  then show ?case by (simp add: isBeforeOrEqual_refl)
next
  case (Cons x cs)
  let ?b = "closerPreceding x c"
  from Cons.IH[of ?b] have mem: "fold closerPreceding cs ?b \<in> set (?b # cs)"
    and mx: "\<forall>r \<in> set (?b # cs). isBeforeOrEqual (rend r) (rend (fold closerPreceding cs ?b))"
    by auto
  have b: "?b = x \<or> ?b = c" by (simp add: closerPreceding_def)
  have "isBeforeOrEqual (rend x) (rend ?b)" "isBeforeOrEqual (rend c) (rend ?b)"
    by (auto simp: closerPreceding_def isBeforeOrEqual_refl not_isBefore isBeforeOrEqual_def)
  with mx have "isBeforeOrEqual (rend x) (rend (fold closerPreceding cs ?b))"
    "isBeforeOrEqual (rend c) (rend (fold closerPreceding cs ?b))"
    by (auto intro: isBeforeOrEqual_trans)
  with mem mx b show ?case by auto
qed

lemma findPreceding_Some:
  assumes "findPreceding p rs = Some r"
  shows "r \<in> set rs \<and> isBeforeOrEqual (rend r) p \<and>
         (\<forall>r' \<in> set rs. isBeforeOrEqual (rend r') p \<longrightarrow> isBeforeOrEqual (rend r') (rend r))"
proof -
  from assms obtain c cs where f: "filter (\<lambda>r. isBeforeOrEqual (rend r) p) rs = c # cs"
    and r: "r = fold closerPreceding cs c"
    by (auto simp: findPreceding_def split: list.splits)
  from fold_closerPreceding[of cs c] r have mem: "r \<in> set (c # cs)"
    and mx: "\<forall>r' \<in> set (c # cs). isBeforeOrEqual (rend r') (rend r)" by auto
  have s: "set (c # cs) = {r \<in> set rs. isBeforeOrEqual (rend r) p}"
    unfolding f[symmetric] by auto
  with mem mx show ?thesis by auto
qed

lemma findPreceding_None:
  "findPreceding p rs = None \<Longrightarrow> \<forall>r \<in> set rs. \<not> isBeforeOrEqual (rend r) p"
  by (auto simp: findPreceding_def filter_empty_conv split: list.splits)

lemma scanStart_cases:
  "(list_ex (endsOnLineBefore (rstart rng)) (uglyDecorationRanges s) \<longrightarrow>
      list_ex (\<lambda>r. endsOnLineBefore (rstart rng) r \<and> character (rend r) = scanStart s rng)
              (uglyDecorationRanges s) \<and>
      list_all (\<lambda>r. endsOnLineBefore (rstart rng) r \<longrightarrow> character (rend r) \<le> scanStart s rng)
               (uglyDecorationRanges s)) \<and>
   (\<not> list_ex (endsOnLineBefore (rstart rng)) (uglyDecorationRanges s) \<longrightarrow> scanStart s rng = 0)"
proof (cases "findPreceding (rstart rng) (uglyDecorationRanges s)")
  case None
  from findPreceding_None[OF None] None show ?thesis
    by (auto simp: scanStart_def list_ex_iff endsOnLineBefore_def)
next
  case (Some p)
  from findPreceding_Some[OF Some] have mem: "p \<in> set (uglyDecorationRanges s)"
    and le: "isBeforeOrEqual (rend p) (rstart rng)"
    and mx: "\<forall>r' \<in> set (uglyDecorationRanges s). isBeforeOrEqual (rend r') (rstart rng) \<longrightarrow>
                isBeforeOrEqual (rend r') (rend p)" by auto
  show ?thesis
  proof (cases "line (rend p) = line (rstart rng)")
    case True
    with Some have st: "scanStart s rng = character (rend p)" by (simp add: scanStart_def)
    have "character (rend r) \<le> character (rend p)"
      if "r \<in> set (uglyDecorationRanges s)" "endsOnLineBefore (rstart rng) r" for r
      using that mx True by (auto simp: endsOnLineBefore_def isBeforeOrEqual_def isBefore_def)
    with st mem le True show ?thesis
      by (auto simp: list_ex_iff list_all_iff endsOnLineBefore_def)
  next
    case False
    with Some have st: "scanStart s rng = 0" by (simp add: scanStart_def)
    have "\<not> endsOnLineBefore (rstart rng) r" if "r \<in> set (uglyDecorationRanges s)" for r
    proof
      assume e: "endsOnLineBefore (rstart rng) r"
      with mx that have "isBeforeOrEqual (rend r) (rend p)" by (auto simp: endsOnLineBefore_def)
      from isBeforeOrEqual_line[OF this] isBeforeOrEqual_line[OF le] e False show False
        by (auto simp: endsOnLineBefore_def)
    qed
    with st show ?thesis by (auto simp: list_ex_iff)
  qed
qed

lemma scanStart_le:
  "scanStart s rng \<le> character (rstart rng)"
proof (cases "findPreceding (rstart rng) (uglyDecorationRanges s)")
  case None
  then show ?thesis by (simp add: scanStart_def)
next
  case (Some p)
  from findPreceding_Some[OF Some] have "isBeforeOrEqual (rend p) (rstart rng)" by auto
  with Some show ?thesis by (auto simp: scanStart_def isBeforeOrEqual_def isBefore_def)
qed

lemma maxPosition_ge: "isBeforeOrEqual a (maxPosition a b)"
  by (auto simp: maxPosition_def isBeforeOrEqual_def)

lemma withCharacter_le:
  "c \<le> character p \<Longrightarrow> isBeforeOrEqual (withCharacter p c) p"
  by (cases p) (auto simp: withCharacter_def isBeforeOrEqual_def isBefore_def)

lemma mergeFresh_ugly:
  "uglyDecorationRanges (mergeFresh rng fresh s) =
     insertRanges (fst fresh) (uglyDecorationRanges (removeExtraOverlap rng (fst fresh) s))"
  by (simp add: mergeFresh_def Let_def)

lemma mergeFresh_pretty:
  "prettyDecorations (mergeFresh rng fresh s) =
     map (\<lambda>(subst, new). subst\<lparr>ranges := insertRanges new (ranges subst)\<rparr>)
         (zip (prettyDecorations (removeExtraOverlap rng (fst fresh) s)) (snd fresh))"
  by (simp add: mergeFresh_def Let_def)

lemma parsePretty_indices:
  assumes "prettyDecorations s \<noteq> []"
    and "parsePretty exec range0 s = Some (Inr (reparsed, s'))"
    and "scanRange exec (validateRange (document s) range0)
           (scanStart s (validateRange (document s) range0)) s = Some (Inr fresh)"
  shows "indices s' = indices (mergeFresh (validateRange (document s) range0) fresh s)"
  using assms by (auto simp: parsePretty_def Let_def indices_def split: if_splits)

lemma length_insertPretty:
  "insertPretty u fresh = Inr fresh' \<Longrightarrow> length (snd fresh') = length (snd fresh)"
  by (auto simp: insertPretty_def split: if_splits)

lemma length_insertUgly: "length (snd (insertUgly u fresh)) = length (snd fresh)"
  by (simp add: insertUgly_def)

lemma scanLine_length:
  assumes "scanLine exec re tx idx li fresh = Some y"
  shows "\<forall>fresh'. y = Inr fresh' \<longrightarrow> length (snd fresh') = length (snd fresh)"
proof (rule scanLine.raw_induct
         [where P = "\<lambda>exec re tx idx li fresh y.
                      \<forall>fresh'. y = Inr fresh' \<longrightarrow> length (snd fresh') = length (snd fresh)",
          OF _ assms], goal_cases)
  case (1 f exec re tx idx lastIndex fresh y)
  from "1"(2) show ?case
    by (auto split: option.splits sum.splits prod.splits
             dest!: "1"(1) length_insertPretty simp: length_insertUgly)
qed

lemma scanLines_length:
  "scanLines exec re doc idxs li fresh = Some (Inr fresh') \<Longrightarrow>
   length (snd fresh') = length (snd fresh)"
proof (induction idxs arbitrary: li fresh)
  case Nil
  then show ?case by simp
next
  case (Cons idx idxs)
  from Cons.prems obtain tx f1 where
    a: "scanLine exec re tx idx li fresh = Some (Inr f1)"
    and b: "scanLines exec re doc idxs 0 f1 = Some (Inr fresh')"
    by (auto split: sum.splits option.splits)
  from scanLine_length[OF a] Cons.IH[OF b] show ?case by simp
qed

lemma length_insertCandidate: "length (snd (insertCandidate u fresh)) = length (snd fresh)"
  by (auto simp: insertCandidate_def length_insertUgly split: sum.splits dest!: length_insertPretty)

lemma lastLineBody_length:
  "lastLineBody m ln pex fresh = Continue li' pex' fresh' \<Longrightarrow>
   length (snd fresh') = length (snd fresh)"
  by (auto simp: lastLineBody_def Let_def length_insertCandidate
           split: sum.splits prod.splits option.splits if_splits)

lemma scanLastLine_length:
  assumes "scanLastLine exec re tx ln li pex fresh = Some fresh'"
  shows "length (snd fresh') = length (snd fresh)"
proof (rule scanLastLine.raw_induct
         [where P = "\<lambda>exec re tx ln li pex fresh fresh'. length (snd fresh') = length (snd fresh)",
          OF _ assms], goal_cases)
  case (1 f exec re tx ln lastIndex pex fresh y)
  from "1"(2) show ?case
    by (auto split: option.splits LastLineStep.splits dest!: "1"(1) lastLineBody_length)
qed

lemma scanRange_length:
  "scanRange exec rng sc s = Some (Inr fresh) \<Longrightarrow>
   length (snd fresh) = length (prettyDecorations s)"
  by (auto simp: scanRange_def split: option.splits sum.splits
           dest!: scanLines_length scanLastLine_length)

lemma length_removeExtraOverlap:
  "length (prettyDecorations (removeExtraOverlap rng new s)) = length (prettyDecorations s)"
  by (simp add: removeExtraOverlap_def Let_def)

lemma parsePretty_length:
  assumes "parsePretty exec range0 s = Some (Inr (reparsed, s'))"
  shows "length (prettyDecorations s') = length (prettyDecorations s)"
proof (cases "prettyDecorations s = []")
  case True
  with assms show ?thesis by (simp add: parsePretty_def)
next
  case False
  with assms obtain fresh where
    sr: "scanRange exec (validateRange (document s) range0)
           (scanStart s (validateRange (document s) range0)) s = Some (Inr fresh)"
    by (auto simp: parsePretty_def Let_def split: option.splits sum.splits)
  from parsePretty_indices[OF False assms sr]
  have "map ranges (prettyDecorations s') =
        map ranges (prettyDecorations (mergeFresh (validateRange (document s) range0) fresh s))"
    by (simp add: indices_def)
  then have "length (prettyDecorations s') =
        length (prettyDecorations (mergeFresh (validateRange (document s) range0) fresh s))"
    by (rule map_eq_imp_length_eq)
  with scanRange_length[OF sr] show ?thesis
    by (simp add: mergeFresh_pretty length_removeExtraOverlap)
qed

text \<open>
  Claim C6. When the fresh matches of a scan end after the end of the parsed range, the
  stored ranges that overlap the span from that end to the end of the fresh matches are
  removed, from the aggregate set and from the set of every rule, and the fresh matches
  are inserted into what is left. Hence a range of the result that overlaps this span is
  a fresh one, in the aggregate set and in every rule's set.
\<close>

theorem parsePretty_removes_overrun:
  assumes rules: "prettyDecorations s \<noteq> []"
    and ret: "parsePretty exec range0 s = Some (Inr (reparsed, s'))"
    and scan: "scanRange exec (validateRange (document s) range0)
                 (scanStart s (validateRange (document s) range0)) s = Some (Inr fresh)"
    and over: "isBefore (rend (validateRange (document s) range0)) (getEnd (fst fresh))"
  shows "uglyDecorationRanges s' =
           insertRanges (fst fresh)
             (filter (\<lambda>r. \<not> overlapsQuery
                              (Range (rend (validateRange (document s) range0)) (getEnd (fst fresh)))
                              False False r)
                     (uglyDecorationRanges s)) \<and>
         list_all (\<lambda>r. overlapsQuery
                          (Range (rend (validateRange (document s) range0)) (getEnd (fst fresh)))
                          False False r \<longrightarrow> r \<in> set (fst fresh))
                  (uglyDecorationRanges s') \<and>
         length (prettyDecorations s') = length (prettyDecorations s) \<and>
         (\<forall>i < length (prettyDecorations s').
            ranges (prettyDecorations s' ! i) =
              insertRanges (snd fresh ! i)
                (filter (\<lambda>r. \<not> overlapsQuery
                                 (Range (rend (validateRange (document s) range0)) (getEnd (fst fresh)))
                                 False False r)
                        (ranges (prettyDecorations s ! i))) \<and>
            list_all (\<lambda>r. overlapsQuery
                             (Range (rend (validateRange (document s) range0)) (getEnd (fst fresh)))
                             False False r \<longrightarrow> r \<in> set (snd fresh ! i))
                     (ranges (prettyDecorations s' ! i)))"
proof -
  let ?rng = "validateRange (document s) range0"
  let ?extra = "Range (rend ?rng) (getEnd (fst fresh))"
  let ?keep = "filter (\<lambda>r. \<not> overlapsQuery ?extra False False r)"
  let ?m = "mergeFresh ?rng fresh s"
  from parsePretty_indices[OF rules ret scan]
  have u: "uglyDecorationRanges s' = uglyDecorationRanges ?m"
    and p: "map ranges (prettyDecorations s') = map ranges (prettyDecorations ?m)"
    by (auto simp: indices_def)
  from over have nr: "newRange (rend ?rng) (getEnd (fst fresh)) = ?extra"
    by (simp add: newRange_def)
  from over nr have ru: "uglyDecorationRanges (removeExtraOverlap ?rng (fst fresh) s) =
      ?keep (uglyDecorationRanges s)"
    by (simp add: removeExtraOverlap_def Let_def removeOverlapping_def)
  from over nr have rp: "prettyDecorations (removeExtraOverlap ?rng (fst fresh) s) =
      map (\<lambda>subst. subst\<lparr>ranges := ?keep (ranges subst)\<rparr>) (prettyDecorations s)"
    by (simp add: removeExtraOverlap_def Let_def removeOverlapping_def)
  have 1: "uglyDecorationRanges s' = insertRanges (fst fresh) (?keep (uglyDecorationRanges s))"
    by (simp add: u mergeFresh_ugly ru)
  have 2: "list_all (\<lambda>r. overlapsQuery ?extra False False r \<longrightarrow> r \<in> set (fst fresh))
             (uglyDecorationRanges s')"
    unfolding 1 list_all_iff using set_insertRanges[of "fst fresh" "?keep (uglyDecorationRanges s)"]
    by auto
  have 3: "ranges (prettyDecorations s' ! i) =
              insertRanges (snd fresh ! i) (?keep (ranges (prettyDecorations s ! i))) \<and>
           list_all (\<lambda>r. overlapsQuery ?extra False False r \<longrightarrow> r \<in> set (snd fresh ! i))
                     (ranges (prettyDecorations s' ! i))"
    if i: "i < length (prettyDecorations s')" for i
  proof -
    from p have len: "length (prettyDecorations s') = length (prettyDecorations ?m)"
      by (rule map_eq_imp_length_eq)
    with i have im: "i < length (prettyDecorations ?m)" by simp
    then have i1: "i < length (prettyDecorations s)" and i2: "i < length (snd fresh)"
      by (simp_all add: mergeFresh_pretty rp)
    from p i have "ranges (prettyDecorations s' ! i) = ranges (prettyDecorations ?m ! i)"
      by (metis len nth_map)
    also from i1 i2 have "\<dots> = insertRanges (snd fresh ! i) (?keep (ranges (prettyDecorations s ! i)))"
      by (simp add: mergeFresh_pretty rp)
    finally have e: "ranges (prettyDecorations s' ! i) =
       insertRanges (snd fresh ! i) (?keep (ranges (prettyDecorations s ! i)))" .
    have "list_all (\<lambda>r. overlapsQuery ?extra False False r \<longrightarrow> r \<in> set (snd fresh ! i))
                     (ranges (prettyDecorations s' ! i))"
      unfolding e list_all_iff
      using set_insertRanges[of "snd fresh ! i" "?keep (ranges (prettyDecorations s ! i))"]
      by auto
    with e show ?thesis by simp
  qed
  from 1 2 3 parsePretty_length[OF ret] show ?thesis by blast
qed

text \<open>
  On the line \<^verbatim>\<open>a-b\<close> the fresh match \<^verbatim>\<open>a-b\<close> ends at column 3, after the end of the
  parsed range at column 1: the stored \<^verbatim>\<open>b\<close> at columns 2 to 3 is removed from both
  its sets.
\<close>

theorem parsePretty_removes_overrun_witness:
  "prettyDecorations overrunState \<noteq> [] \<and>
   parsePretty (engineOf overrun) (Range (Position 0 0) (Position 0 1)) overrunState =
     Some (Inr (Range (Position 0 0) (Position 0 3),
                overrunState
                  \<lparr>prettyDecorations :=
                     [\<lparr>uglyRegExp = ''(a-b)'', prettyText = ''A'',
                       ranges = [Range (Position 0 0) (Position 0 3)]\<rparr>,
                      \<lparr>uglyRegExp = ''(b)'', prettyText = ''B'', ranges = []\<rparr>],
                   uglyDecorationRanges := [Range (Position 0 0) (Position 0 3)],
                   changedUglies := True\<rparr>)) \<and>
   scanRange (engineOf overrun) (Range (Position 0 0) (Position 0 1)) 0 overrunState =
     Some (Inr ([Range (Position 0 0) (Position 0 3)], [[Range (Position 0 0) (Position 0 3)], []])) \<and>
   isBefore (Position 0 1) (getEnd [Range (Position 0 0) (Position 0 3)]) \<and>
   overlapsQuery (Range (Position 0 1) (Position 0 3)) False False
     (Range (Position 0 2) (Position 0 3))"
proof -
  let ?r = "Range (Position 0 0) (Position 0 1)"
  let ?fresh = "([Range (Position 0 0) (Position 0 3)], [[Range (Position 0 0) (Position 0 3)], []])"
  let ?s' = "overrunState
                  \<lparr>prettyDecorations :=
                     [\<lparr>uglyRegExp = ''(a-b)'', prettyText = ''A'',
                       ranges = [Range (Position 0 0) (Position 0 3)]\<rparr>,
                      \<lparr>uglyRegExp = ''(b)'', prettyText = ''B'', ranges = []\<rparr>],
                   uglyDecorationRanges := [Range (Position 0 0) (Position 0 3)],
                   changedUglies := True\<rparr>"
  have v: "validateRange (document overrunState) ?r = ?r" by code_simp
  have sc: "scanStart overrunState ?r = 0" by code_simp
  have rules: "prettyDecorations overrunState \<noteq> []" by (simp add: overrunState_def)
  have ret: "parsePretty (engineOf overrun) ?r overrunState =
     Some (Inr (Range (Position 0 0) (Position 0 3), ?s'))"
    by code_simp
  have scan0: "scanRange (engineOf overrun) ?r 0 overrunState = Some (Inr ?fresh)"
    by code_simp
  then have scan: "scanRange (engineOf overrun) (validateRange (document overrunState) ?r)
                 (scanStart overrunState (validateRange (document overrunState) ?r)) overrunState =
               Some (Inr ?fresh)"
    by (simp only: v sc)
  have over0: "isBefore (Position 0 1) (getEnd [Range (Position 0 0) (Position 0 3)])" by code_simp
  then have over: "isBefore (rend (validateRange (document overrunState) ?r)) (getEnd (fst ?fresh))"
    by (simp only: v fst_conv Range.sel)
  have ov: "overlapsQuery (Range (Position 0 1) (Position 0 3)) False False
     (Range (Position 0 2) (Position 0 3))" by code_simp
  from parsePretty_removes_overrun[OF rules ret scan over] rules ret scan0 over0 ov
  show ?thesis by simp
qed

lemma getEnd_mem: "rs \<noteq> [] \<Longrightarrow> \<exists>r \<in> set rs. getEnd rs = rend r"
  by (auto simp: getEnd_def)

lemma isBefore_origin: "\<not> isBefore p (Position 0 0)"
  by (simp add: isBefore_def)

lemma removeExtraOverlap_keeps_ugly:
  assumes fb: "list_all (\<lambda>r. isBeforeOrEqual (rend r) p) new"
    and q: "q \<in> set (uglyDecorationRanges s)" and pq: "isBeforeOrEqual p (rstart q)"
  shows "q \<in> set (uglyDecorationRanges (removeExtraOverlap rng new s))"
proof (cases "isBefore (rend rng) (getEnd new)")
  case False
  with q show ?thesis by (simp add: removeExtraOverlap_def)
next
  case True
  then have "new \<noteq> []" by (auto simp: getEnd_def isBefore_origin)
  from getEnd_mem[OF this] fb have "isBeforeOrEqual (getEnd new) p" by (auto simp: list_all_iff)
  from this pq have "isBeforeOrEqual (getEnd new) (rstart q)" by (rule isBeforeOrEqual_trans)
  then have "\<not> isBefore (rstart q) (getEnd new)" by (simp add: not_isBefore)
  with True q show ?thesis
    by (simp add: removeExtraOverlap_def Let_def removeOverlapping_def newRange_def overlapsQuery_def)
qed

lemma removeExtraOverlap_keeps_pretty:
  assumes fb: "list_all (\<lambda>r. isBeforeOrEqual (rend r) p) new"
    and i: "i < length (prettyDecorations s)"
    and q: "q \<in> set (ranges (prettyDecorations s ! i))" and pq: "isBeforeOrEqual p (rstart q)"
  shows "q \<in> set (ranges (prettyDecorations (removeExtraOverlap rng new s) ! i))"
proof (cases "isBefore (rend rng) (getEnd new)")
  case False
  with q show ?thesis by (simp add: removeExtraOverlap_def)
next
  case True
  then have "new \<noteq> []" by (auto simp: getEnd_def isBefore_origin)
  from getEnd_mem[OF this] fb have "isBeforeOrEqual (getEnd new) p" by (auto simp: list_all_iff)
  from this pq have "isBeforeOrEqual (getEnd new) (rstart q)" by (rule isBeforeOrEqual_trans)
  then have "\<not> isBefore (rstart q) (getEnd new)" by (simp add: not_isBefore)
  with True q i show ?thesis
    by (simp add: removeExtraOverlap_def Let_def removeOverlapping_def newRange_def overlapsQuery_def)
qed

lemma mergeFresh_keeps:
  assumes fb: "list_all (\<lambda>r. isBeforeOrEqual (rend r) p) (fst fresh)"
    and len: "length (snd fresh) = length (prettyDecorations s)"
  shows "list_all (\<lambda>q. isBeforeOrEqual p (rstart q) \<longrightarrow>
                       q \<in> set (uglyDecorationRanges (mergeFresh rng fresh s)))
           (uglyDecorationRanges s) \<and>
         (\<forall>i < length (prettyDecorations s).
            list_all (\<lambda>q. isBeforeOrEqual p (rstart q) \<longrightarrow>
                          q \<in> set (ranges (prettyDecorations (mergeFresh rng fresh s) ! i)))
              (ranges (prettyDecorations s ! i)))"
proof -
  have 1: "q \<in> set (uglyDecorationRanges (mergeFresh rng fresh s))"
    if "q \<in> set (uglyDecorationRanges s)" "isBeforeOrEqual p (rstart q)" for q
    using removeExtraOverlap_keeps_ugly[OF fb that, of rng]
      insertRanges_keeps[of "uglyDecorationRanges (removeExtraOverlap rng (fst fresh) s)" "fst fresh"]
    by (auto simp: mergeFresh_ugly)
  have 2: "q \<in> set (ranges (prettyDecorations (mergeFresh rng fresh s) ! i))"
    if i: "i < length (prettyDecorations s)" and q: "q \<in> set (ranges (prettyDecorations s ! i))"
      and pq: "isBeforeOrEqual p (rstart q)" for q i
  proof -
    from i len have "ranges (prettyDecorations (mergeFresh rng fresh s) ! i) =
        insertRanges (snd fresh ! i) (ranges (prettyDecorations (removeExtraOverlap rng (fst fresh) s) ! i))"
      by (simp add: mergeFresh_pretty length_removeExtraOverlap)
    with removeExtraOverlap_keeps_pretty[OF fb i q pq, of rng]
      insertRanges_keeps[of "ranges (prettyDecorations (removeExtraOverlap rng (fst fresh) s) ! i)"
         "snd fresh ! i"]
    show ?thesis by auto
  qed
  from 1 2 show ?thesis by (auto simp: list_all_iff)
qed

lemma insertCandidate_parts:
  "fst (insertCandidate u fresh) = insertRange (uglyRange u) (fst fresh) \<and>
   (prettyIndex u < length (snd fresh) \<longrightarrow>
      snd (insertCandidate u fresh) =
        (snd fresh)[prettyIndex u := insertRange (uglyRange u) (snd fresh ! prettyIndex u)]) \<and>
   (\<not> prettyIndex u < length (snd fresh) \<longrightarrow> snd (insertCandidate u fresh) = snd fresh)"
  by (simp add: insertCandidate_def insertPretty_def insertUgly_def)

text \<open>
  What the body of the loop over the last line does with a candidate. It is compared with
  \<open>hd pex\<close>, the stored match the iterator is at, of those that start at or after the
  end of the range. When the two are equal the loop stops with the fresh sets as they are,
  and then (the fresh ranges lying before the candidate) the stored match and every stored
  range that starts at or after it are still there after the merge. Otherwise the two
  inserts are made and the loop goes on from the candidate's end: past that stored match
  when it starts before the candidate's end, with the same stored match when not.
\<close>

lemma lastLineBody_on_candidate:
  assumes ex: "exec re tx li = Some m"
    and cand: "getUglyFromMatch m ln (execLastIndex m) = Inr (Some u, li')"
  shows
   "(pex \<noteq> [] \<and> hd pex = uglyRange u \<longrightarrow>
        scanLastLine exec re tx ln li pex fresh = Some fresh \<and>
        (list_all (\<lambda>r. isBeforeOrEqual (rend r) (rstart (uglyRange u))) (fst fresh) \<and>
         length (snd fresh) = length (prettyDecorations s) \<longrightarrow>
           list_all (\<lambda>q. isBeforeOrEqual (rstart (hd pex)) (rstart q) \<longrightarrow>
                         q \<in> set (uglyDecorationRanges (mergeFresh rng fresh s)))
             (uglyDecorationRanges s) \<and>
           (\<forall>i < length (prettyDecorations s).
              list_all (\<lambda>q. isBeforeOrEqual (rstart (hd pex)) (rstart q) \<longrightarrow>
                            q \<in> set (ranges (prettyDecorations (mergeFresh rng fresh s) ! i)))
                (ranges (prettyDecorations s ! i))))) \<and>
    (\<not> (pex \<noteq> [] \<and> hd pex = uglyRange u) \<longrightarrow>
        fst (insertCandidate u fresh) = insertRange (uglyRange u) (fst fresh) \<and>
        (prettyIndex u < length (snd fresh) \<longrightarrow>
           snd (insertCandidate u fresh) =
             (snd fresh)[prettyIndex u := insertRange (uglyRange u) (snd fresh ! prettyIndex u)]) \<and>
        (pex \<noteq> [] \<and> isBefore (rstart (hd pex)) (rend (uglyRange u)) \<longrightarrow>
           scanLastLine exec re tx ln li pex fresh =
             scanLastLine exec re tx ln li' (tl pex) (insertCandidate u fresh)) \<and>
        (\<not> (pex \<noteq> [] \<and> isBefore (rstart (hd pex)) (rend (uglyRange u))) \<longrightarrow>
           scanLastLine exec re tx ln li pex fresh =
             scanLastLine exec re tx ln li' pex (insertCandidate u fresh)))"
proof (intro conjI impI)
  assume eq: "pex \<noteq> [] \<and> hd pex = uglyRange u"
  with cand have "lastLineBody m ln pex fresh = Break" by (simp add: lastLineBody_def)
  with ex show "scanLastLine exec re tx ln li pex fresh = Some fresh"
    by (subst scanLastLine.simps) simp
next
  assume eq: "pex \<noteq> [] \<and> hd pex = uglyRange u"
    and h: "list_all (\<lambda>r. isBeforeOrEqual (rend r) (rstart (uglyRange u))) (fst fresh) \<and>
            length (snd fresh) = length (prettyDecorations s)"
  from eq h mergeFresh_keeps[of "rstart (hd pex)" fresh s rng]
  show "list_all (\<lambda>q. isBeforeOrEqual (rstart (hd pex)) (rstart q) \<longrightarrow>
                         q \<in> set (uglyDecorationRanges (mergeFresh rng fresh s)))
             (uglyDecorationRanges s)" by simp
  from eq h mergeFresh_keeps[of "rstart (hd pex)" fresh s rng]
  show "\<forall>i < length (prettyDecorations s).
              list_all (\<lambda>q. isBeforeOrEqual (rstart (hd pex)) (rstart q) \<longrightarrow>
                            q \<in> set (ranges (prettyDecorations (mergeFresh rng fresh s) ! i)))
                (ranges (prettyDecorations s ! i))" by simp
next
  show "fst (insertCandidate u fresh) = insertRange (uglyRange u) (fst fresh)"
    by (simp add: insertCandidate_parts)
next
  assume "prettyIndex u < length (snd fresh)"
  then show "snd (insertCandidate u fresh) =
             (snd fresh)[prettyIndex u := insertRange (uglyRange u) (snd fresh ! prettyIndex u)]"
    by (simp add: insertCandidate_parts)
next
  assume ne: "\<not> (pex \<noteq> [] \<and> hd pex = uglyRange u)"
    and adv: "pex \<noteq> [] \<and> isBefore (rstart (hd pex)) (rend (uglyRange u))"
  with cand have "lastLineBody m ln pex fresh = Continue li' (tl pex) (insertCandidate u fresh)"
    by (simp add: lastLineBody_def)
  with ex show "scanLastLine exec re tx ln li pex fresh =
             scanLastLine exec re tx ln li' (tl pex) (insertCandidate u fresh)"
    by (subst scanLastLine.simps) simp
next
  assume ne: "\<not> (pex \<noteq> [] \<and> hd pex = uglyRange u)"
    and adv: "\<not> (pex \<noteq> [] \<and> isBefore (rstart (hd pex)) (rend (uglyRange u)))"
  with cand have "lastLineBody m ln pex fresh = Continue li' pex (insertCandidate u fresh)"
    by (auto simp: lastLineBody_def)
  with ex show "scanLastLine exec re tx ln li pex fresh =
             scanLastLine exec re tx ln li' pex (insertCandidate u fresh)"
    by (subst scanLastLine.simps) simp
qed

text \<open>
  Two runs of the loop body. On \<^verbatim>\<open>a -> xb -> c\<close> the candidate at columns 8 to 10 is
  the stored match: the loop stops and the stored match stays. On \<^verbatim>\<open>a-b\<close> the
  candidate at columns 0 to 3 runs over the stored match at columns 2 to 3: the iterator
  moves on and the candidate is inserted.
\<close>

lemma lastLineBody_on_candidate_runs:
  "engineOf arrow ''(?:(->))'' ''a -> xb -> c'' 4 =
     Some \<lparr>index = 8, array = [Some ''->'', Some ''->'']\<rparr> \<and>
   getUglyFromMatch \<lparr>index = 8, array = [Some ''->'', Some ''->'']\<rparr> 0 10 =
     Inr (Some \<lparr>uglyRange = Range (Position 0 8) (Position 0 10), prettyIndex = 0\<rparr>, 10) \<and>
   scanLastLine (engineOf arrow) ''(?:(->))'' ''a -> xb -> c'' 0 4
       [Range (Position 0 8) (Position 0 10)] ([], [[]]) = Some ([], [[]]) \<and>
   list_all (\<lambda>q. isBeforeOrEqual (Position 0 8) (rstart q) \<longrightarrow>
                 q \<in> set (uglyDecorationRanges
                            (mergeFresh (Range (Position 0 5) (Position 0 6)) ([], [[]]) twoArrows)))
     (uglyDecorationRanges twoArrows) \<and>
   engineOf overrun ''(?:(a-b))|(?:(b))'' ''a-b'' 0 =
     Some \<lparr>index = 0, array = [Some ''a-b'', Some ''a-b'', None]\<rparr> \<and>
   getUglyFromMatch \<lparr>index = 0, array = [Some ''a-b'', Some ''a-b'', None]\<rparr> 0 3 =
     Inr (Some \<lparr>uglyRange = Range (Position 0 0) (Position 0 3), prettyIndex = 0\<rparr>, 3) \<and>
   scanLastLine (engineOf overrun) ''(?:(a-b))|(?:(b))'' ''a-b'' 0 0
       [Range (Position 0 2) (Position 0 3)] ([], [[], []]) =
     scanLastLine (engineOf overrun) ''(?:(a-b))|(?:(b))'' ''a-b'' 0 3
       [] ([Range (Position 0 0) (Position 0 3)], [[Range (Position 0 0) (Position 0 3)], []])"
proof -
  let ?m = "\<lparr>index = 8, array = [Some ''->'', Some ''->'']\<rparr>"
  let ?u = "\<lparr>uglyRange = Range (Position 0 8) (Position 0 10), prettyIndex = 0\<rparr>"
  have e1: "engineOf arrow ''(?:(->))'' ''a -> xb -> c'' 4 = Some ?m" by code_simp
  have x1: "execLastIndex ?m = 10" by code_simp
  have g1: "getUglyFromMatch ?m 0 10 = Inr (Some ?u, 10)" by code_simp
  then have c1: "getUglyFromMatch ?m 0 (execLastIndex ?m) = Inr (Some ?u, 10)" by (simp only: x1)
  have l1: "length (snd ([] :: DisjointRangeSet, [[]] :: DisjointRangeSet list)) =
            length (prettyDecorations twoArrows)" by (simp add: twoArrows_def)
  note t1 = lastLineBody_on_candidate
     [where exec = "engineOf arrow" and re = "''(?:(->))''" and tx = "''a -> xb -> c''" and li = 4
        and pex = "[Range (Position 0 8) (Position 0 10)]" and fresh = "([], [[]])"
        and s = twoArrows and rng = "Range (Position 0 5) (Position 0 6)", OF e1 c1]
  let ?n = "\<lparr>index = 0, array = [Some ''a-b'', Some ''a-b'', None]\<rparr>"
  let ?v = "\<lparr>uglyRange = Range (Position 0 0) (Position 0 3), prettyIndex = 0\<rparr>"
  have e2: "engineOf overrun ''(?:(a-b))|(?:(b))'' ''a-b'' 0 = Some ?n" by code_simp
  have x2: "execLastIndex ?n = 3" by code_simp
  have g2: "getUglyFromMatch ?n 0 3 = Inr (Some ?v, 3)" by code_simp
  then have c2: "getUglyFromMatch ?n 0 (execLastIndex ?n) = Inr (Some ?v, 3)" by (simp only: x2)
  have i2: "insertCandidate ?v ([], [[], []]) =
            ([Range (Position 0 0) (Position 0 3)], [[Range (Position 0 0) (Position 0 3)], []])"
    by code_simp
  have b2: "isBefore (Position 0 2) (Position 0 3)" by code_simp
  note t2 = lastLineBody_on_candidate
     [where exec = "engineOf overrun" and re = "''(?:(a-b))|(?:(b))''" and tx = "''a-b''" and li = 0
        and pex = "[Range (Position 0 2) (Position 0 3)]" and fresh = "([], [[], []])"
        and s = overrunState and rng = "Range (Position 0 0) (Position 0 1)", OF e2 c2]
  from t1 l1 have k1: "scanLastLine (engineOf arrow) ''(?:(->))'' ''a -> xb -> c'' 0 4
       [Range (Position 0 8) (Position 0 10)] ([], [[]]) = Some ([], [[]]) \<and>
     list_all (\<lambda>q. isBeforeOrEqual (Position 0 8) (rstart q) \<longrightarrow>
                 q \<in> set (uglyDecorationRanges
                            (mergeFresh (Range (Position 0 5) (Position 0 6)) ([], [[]]) twoArrows)))
       (uglyDecorationRanges twoArrows)"
    by simp
  from t2 i2 b2 have k2: "scanLastLine (engineOf overrun) ''(?:(a-b))|(?:(b))'' ''a-b'' 0 0
       [Range (Position 0 2) (Position 0 3)] ([], [[], []]) =
     scanLastLine (engineOf overrun) ''(?:(a-b))|(?:(b))'' ''a-b'' 0 3
       [] ([Range (Position 0 0) (Position 0 3)], [[Range (Position 0 0) (Position 0 3)], []])"
    by simp
  from e1 g1 k1 e2 g2 k2 show ?thesis by simp
qed


section \<open>Two runs in which the indices go wrong\<close>

text \<open>
  Claim C1 (the equivalence of incremental processing and a full scan) on the rules
  \<^verbatim>\<open>a(?:xb)\<close> and \<^verbatim>\<open>q\<close>. The line \<^verbatim>\<open>axb\<close> has the match \<^verbatim>\<open>a\<close> at columns 0 to
  1. The edit replaces the \<^verbatim>\<open>b\<close> by \<^verbatim>\<open>q\<close>; it does not touch the stored match, and
  \<^verbatim>\<open>parsePretty\<close> scans from the end of that match on. After the edit the indices
  hold the match at columns 0 to 1, whose context is gone, and the new \<^verbatim>\<open>q\<close>; a scan
  of the whole document \<^verbatim>\<open>axq\<close>, by \<^verbatim>\<open>refresh\<close> or by a new controller, finds the
  \<^verbatim>\<open>q\<close> only.
\<close>

theorem onChangeDocument_keeps_stale_match:
  "source staleContext = uglyAll staleBefore \<and>
   newController (\<lambda>re. True) (engineOf staleContext) [''axb''] staleRules =
     Some (Inr staleBefore) \<and>
   applyChange [''axb''] staleChange = [''axq''] \<and>
   map_option indices
       (onChangeDocument (engineOf staleContext)
          \<lparr>eventDocument = [''axq''], contentChanges = [staleChange]\<rparr> staleBefore) =
     Some ([Range (Position 0 0) (Position 0 1), Range (Position 0 2) (Position 0 3)],
           [[Range (Position 0 0) (Position 0 1)], [Range (Position 0 2) (Position 0 3)]]) \<and>
   map_option (map_sum id indices)
       (refresh (engineOf staleContext) (staleBefore\<lparr>document := [''axq'']\<rparr>)) =
     Some (Inr ([Range (Position 0 2) (Position 0 3)],
                [[], [Range (Position 0 2) (Position 0 3)]])) \<and>
   map_option (map_sum id indices)
       (newController (\<lambda>re. True) (engineOf staleContext) [''axq''] staleRules) =
     Some (Inr ([Range (Position 0 2) (Position 0 3)],
                [[], [Range (Position 0 2) (Position 0 3)]]))"
  by code_simp

text \<open>
  Claim C2 (the aggregate index is the union of the indices of the rules) on the rule
  \<^verbatim>\<open>(a)\<close> and the document \<^verbatim>\<open>a\<close>. The match has the two groups 1 and 2, the rule
  credited is number 1, and there is no such rule: inside \<^verbatim>\<open>try\<close> the range has gone
  into the fresh aggregate set when the insertion into the rule's set throws. After the
  constructor the aggregate index holds the range at columns 0 to 1 and the index of the
  only rule is empty.
\<close>

theorem newController_aggregate_without_rule:
  "source nestedGroup = ''(?:((a)))'' \<and>
   engineOf nestedGroup ''(?:((a)))'' ''a'' 0 =
     Some \<lparr>index = 0, array = [Some ''a'', Some ''a'', Some ''a'']\<rparr> \<and>
   getUglyFromMatch \<lparr>index = 0, array = [Some ''a'', Some ''a'', Some ''a'']\<rparr> 0 1 =
     Inr (Some \<lparr>uglyRange = Range (Position 0 0) (Position 0 1), prettyIndex = 1\<rparr>, 1) \<and>
   map_option (map_sum id indices)
       (newController (\<lambda>re. True) (engineOf nestedGroup) [''a''] nestedRules) =
     Some (Inr ([Range (Position 0 0) (Position 0 1)], [[]]))"
  by code_simp

section \<open>The stored matches kept when the scan of the last line stops\<close>

text \<open>
  The hypothesis made above for a loop that stops, that the fresh ranges lie before the
  candidate, holds in every run of \<^verbatim>\<open>parsePretty\<close> with an engine that searches
  forward: the ranges of the lines before the last are on those lines, and on the last
  line each fresh range ends at or before the search position. So when the loop comes to
  a candidate that is the current pre-existing match, \<^verbatim>\<open>parsePretty\<close> returns, and
  that match and every stored range starting at or after it are in the indices it leaves.
\<close>

lemma candidate_position:
  assumes sf: "searchesForward exec" and ex: "exec re tx li = Some m"
    and cand: "getUglyFromMatch m ln li0 = Inr (Some u, li')"
  shows "\<exists>c. li \<le> c \<and> c \<le> li' \<and> uglyRange u = Range (Position ln c) (Position ln li')"
proof -
  from getUglyFromMatch_Some[OF cand] obtain g whole where
    k: "Suc (prettyIndex u) < length (array m)" and g: "array m ! Suc (prettyIndex u) = Some g"
    and w: "array m ! 0 = Some whole"
    and r: "uglyRange u = Range (Position ln (nat (int (index m) + indexOf whole g)))
                         (Position ln (nat (int (index m) + indexOf whole g) + length g))"
    and l: "li' = nat (int (index m) + indexOf whole g) + length g"
    by blast
  from k g have "Some g \<in> set (array m)" by (metis nth_mem)
  with sf ex w have "li \<le> index m" "0 \<le> indexOf whole g" by (auto simp: searchesForward_def)
  then have "li \<le> nat (int (index m) + indexOf whole g)" by simp
  with r l show ?thesis by auto
qed

lemma freshBefore_mono:
  "freshBefore p fresh \<Longrightarrow> isBeforeOrEqual p p' \<Longrightarrow> freshBefore p' fresh"
  by (auto simp: freshBefore_def list_all_iff intro: isBeforeOrEqual_trans)

lemma isBeforeOrEqual_column: "a \<le> b \<Longrightarrow> isBeforeOrEqual (Position ln a) (Position ln b)"
  by (auto simp: isBeforeOrEqual_def isBefore_def)

lemma freshBefore_insertCandidate:
  assumes "freshBefore p fresh" and "isBeforeOrEqual (rend (uglyRange u)) p"
  shows "freshBefore p (insertCandidate u fresh)"
  using assms insertRange_subset[of "uglyRange u" "fst fresh"]
  by (auto simp: freshBefore_def list_all_iff insertCandidate_parts)

lemma execLastIndex_ge: "index m \<le> execLastIndex m"
  by (simp add: execLastIndex_def)

lemma lastLineBody_freshBefore:
  assumes sf: "searchesForward exec" and ex: "exec re tx li = Some m"
    and step: "lastLineBody m ln pex fresh = Continue li' pex' fresh'"
    and inv: "freshBefore (Position ln li) fresh"
  shows "freshBefore (Position ln li') fresh'"
proof (cases "getUglyFromMatch m ln (execLastIndex m)")
  case (Inl e)
  from sf ex have "li \<le> index m" by (auto simp: searchesForward_def)
  with execLastIndex_ge[of m] have "li \<le> execLastIndex m" by simp
  with Inl step inv show ?thesis
    by (auto simp: lastLineBody_def intro: freshBefore_mono isBeforeOrEqual_column)
next
  case (Inr p)
  obtain uo l where p: "p = (uo, l)" by (cases p)
  show ?thesis
  proof (cases uo)
    case None
    with Inr p step have e: "li' = execLastIndex m" "fresh' = fresh"
      by (auto simp: lastLineBody_def getUglyFromMatch_def Let_def split: if_splits option.splits)
    from sf ex have "li \<le> index m" by (auto simp: searchesForward_def)
    with execLastIndex_ge[of m] have "li \<le> execLastIndex m" by simp
    with e inv show ?thesis by (auto intro: freshBefore_mono isBeforeOrEqual_column)
  next
    case (Some u)
    with Inr p have cand: "getUglyFromMatch m ln (execLastIndex m) = Inr (Some u, l)" by simp
    from candidate_position[OF sf ex cand] obtain c where
      c: "li \<le> c" "c \<le> l" and r: "uglyRange u = Range (Position ln c) (Position ln l)" by blast
    from step cand have e: "li' = l" "fresh' = insertCandidate u fresh"
      by (auto simp: lastLineBody_def Let_def split: if_splits)
    from c have "isBeforeOrEqual (Position ln li) (Position ln l)"
      by (auto intro: isBeforeOrEqual_column)
    from freshBefore_mono[OF inv this] r e show ?thesis
      by (auto intro!: freshBefore_insertCandidate simp: isBeforeOrEqual_refl)
  qed
qed

lemma lastLineReach_freshBefore:
  assumes "lastLineReach exec re tx ln st st'" and "searchesForward exec"
    and "freshBefore (Position ln (fst st)) (snd (snd st))"
  shows "freshBefore (Position ln (fst st')) (snd (snd st')) \<and>
         length (snd (snd (snd st'))) = length (snd (snd (snd st)))"
  using assms
proof (induction rule: lastLineReach.induct)
  case (reach_start st)
  then show ?case by simp
next
  case (reach_step st li pex fresh m li' pex' fresh')
  from reach_step.IH[OF reach_step.prems]
  have inv: "freshBefore (Position ln li) fresh"
    and len: "length (snd fresh) = length (snd (snd (snd st)))" by simp_all
  from lastLineBody_freshBefore[OF reach_step.prems(1) reach_step.hyps(2,3) inv]
    lastLineBody_length[OF reach_step.hyps(3)] len
  show ?case by simp
qed

lemma lastLineReach_scan:
  assumes "lastLineReach exec re tx ln st st'"
  shows "scanLastLine exec re tx ln (fst st) (fst (snd st)) (snd (snd st)) =
         scanLastLine exec re tx ln (fst st') (fst (snd st')) (snd (snd st'))"
  using assms
proof (induction rule: lastLineReach.induct)
  case (reach_start st)
  then show ?case by simp
next
  case (reach_step st li pex fresh m li' pex' fresh')
  have "scanLastLine exec re tx ln li pex fresh = scanLastLine exec re tx ln li' pex' fresh'"
    using reach_step.hyps(2,3) by (subst scanLastLine.simps) simp
  with reach_step.IH show ?case by simp
qed

lemma linesBefore_insert:
  assumes "linesBefore ln fresh" and "getUglyFromMatch m idx li0 = Inr (Some u, li')" and "idx < ln"
    and "insertPretty u (insertUgly u fresh) = Inr fresh'"
  shows "linesBefore ln fresh'"
proof -
  from getUglyFromMatch_Some[OF assms(2)] have "line (rend (uglyRange u)) = idx" by auto
  moreover from assms(4) have "fst fresh' = insertRange (uglyRange u) (fst fresh)"
    by (auto simp: insertPretty_def insertUgly_def split: if_splits)
  ultimately show ?thesis
    using assms(1,3) insertRange_subset[of "uglyRange u" "fst fresh"]
    by (auto simp: linesBefore_def list_all_iff)
qed

lemma scanLine_linesBefore:
  assumes "scanLine exec re tx idx li fresh = Some y"
  shows "idx < ln \<longrightarrow> linesBefore ln fresh \<longrightarrow> (\<forall>fresh'. y = Inr fresh' \<longrightarrow> linesBefore ln fresh')"
proof (rule scanLine.raw_induct
         [where P = "\<lambda>exec re tx idx li fresh y.
                      idx < ln \<longrightarrow> linesBefore ln fresh \<longrightarrow>
                      (\<forall>fresh'. y = Inr fresh' \<longrightarrow> linesBefore ln fresh')",
          OF _ assms], goal_cases)
  case (1 f exec re tx idx lastIndex fresh y)
  show ?case
  proof (intro impI allI)
    fix fresh'
    assume lt: "idx < ln" and inv: "linesBefore ln fresh" and y: "y = Inr fresh'"
    show "linesBefore ln fresh'"
    proof (cases "exec re tx lastIndex")
      case None
      with "1"(2) y inv show ?thesis by simp
    next
      case (Some m)
      show ?thesis
      proof (cases "getUglyFromMatch m idx (execLastIndex m)")
        case (Inl e)
        with Some "1"(2) y show ?thesis by simp
      next
        case (Inr p)
        obtain uo l where p: "p = (uo, l)" by (cases p)
        show ?thesis
        proof (cases uo)
          case None
          with Some Inr p "1"(2) have "f exec re tx idx l fresh = Some y" by simp
          from "1"(1)[OF this] lt inv y show ?thesis by simp
        next
          case (Some u)
          note u = Some
          show ?thesis
          proof (cases "insertPretty u (insertUgly u fresh)")
            case (Inl e)
            with \<open>exec re tx lastIndex = Some m\<close> Inr p u "1"(2) y show ?thesis by simp
          next
            case (Inr f1)
            with \<open>exec re tx lastIndex = Some m\<close> \<open>getUglyFromMatch m idx (execLastIndex m) = Inr p\<close>
              p u "1"(2) have r: "f exec re tx idx l f1 = Some y" by simp
            from \<open>getUglyFromMatch m idx (execLastIndex m) = Inr p\<close> p u
            have c: "getUglyFromMatch m idx (execLastIndex m) = Inr (Some u, l)" by simp
            from linesBefore_insert[OF inv c lt Inr] have "linesBefore ln f1" .
            with "1"(1)[OF r] lt y show ?thesis by simp
          qed
        qed
      qed
    qed
  qed
qed

lemma scanLines_linesBefore:
  "scanLines exec re doc idxs li fresh = Some (Inr fresh') \<Longrightarrow>
   list_all (\<lambda>idx. idx < ln) idxs \<Longrightarrow> linesBefore ln fresh \<Longrightarrow> linesBefore ln fresh'"
proof (induction idxs arbitrary: li fresh)
  case Nil
  then show ?case by simp
next
  case (Cons idx idxs)
  from Cons.prems(1) obtain tx f1 where
    a: "scanLine exec re tx idx li fresh = Some (Inr f1)"
    and b: "scanLines exec re doc idxs 0 f1 = Some (Inr fresh')"
    by (auto split: sum.splits option.splits)
  from scanLine_linesBefore[OF a, of ln] Cons.prems have "linesBefore ln f1" by simp
  from Cons.IH[OF b _ this] Cons.prems(2) show ?case by simp
qed

lemma linesBefore_freshBefore: "linesBefore ln fresh \<Longrightarrow> freshBefore (Position ln c) fresh"
  by (auto simp: linesBefore_def freshBefore_def list_all_iff isBeforeOrEqual_def isBefore_def)

lemma parsePretty_keeps_equal_match:
  assumes sf: "searchesForward exec"
    and rules: "prettyDecorations s \<noteq> []"
    and rng: "rng = validateRange (document s) range0"
    and first: "scanLines exec (uglyAll s) (document s) [line (rstart rng) ..< line (rend rng)]
                  (scanStart s rng) ([], replicate (length (prettyDecorations s)) []) =
                Some (Inr fresh1)"
    and tx: "lineAt (document s) (line (rend rng)) = Inr tx"
    and reach: "lastLineReach exec (uglyAll s) tx (line (rend rng))
                  (if line (rstart rng) < line (rend rng) then 0 else scanStart s rng,
                   getRangesStartingAt (rend rng) (uglyDecorationRanges s), fresh1)
                  (li, pex, fresh)"
    and ex: "exec (uglyAll s) tx li = Some m"
    and cand: "getUglyFromMatch m (line (rend rng)) (execLastIndex m) = Inr (Some u, li')"
    and eq: "pex \<noteq> [] \<and> hd pex = uglyRange u"
  shows "\<exists>reparsed s'.
           parsePretty exec range0 s = Some (Inr (reparsed, s')) \<and>
           list_all (\<lambda>q. isBeforeOrEqual (rstart (hd pex)) (rstart q) \<longrightarrow>
                         q \<in> set (uglyDecorationRanges s'))
             (uglyDecorationRanges s) \<and>
           (\<forall>i < length (prettyDecorations s).
              list_all (\<lambda>q. isBeforeOrEqual (rstart (hd pex)) (rstart q) \<longrightarrow>
                            q \<in> set (ranges (prettyDecorations s' ! i)))
                (ranges (prettyDecorations s ! i)))"
proof -
  let ?ln = "line (rend rng)"
  let ?li0 = "if line (rstart rng) < ?ln then 0 else scanStart s rng"
  let ?st0 = "(?li0, getRangesStartingAt (rend rng) (uglyDecorationRanges s), fresh1)"
  have "linesBefore ?ln ([], replicate (length (prettyDecorations s)) [])"
    by (simp add: linesBefore_def)
  with scanLines_linesBefore[OF first, of ?ln] have "linesBefore ?ln fresh1"
    by (simp add: list_all_iff)
  then have "freshBefore (Position ?ln ?li0) fresh1" by (rule linesBefore_freshBefore)
  with lastLineReach_freshBefore[OF reach sf]
  have inv: "freshBefore (Position ?ln li) fresh"
    and len1: "length (snd fresh) = length (snd fresh1)" by simp_all
  from scanLines_length[OF first] len1
  have len: "length (snd fresh) = length (prettyDecorations s)" by simp
  from candidate_position[OF sf ex cand] obtain c where
    c: "li \<le> c" and r: "uglyRange u = Range (Position ?ln c) (Position ?ln li')" by blast
  from c have "isBeforeOrEqual (Position ?ln li) (Position ?ln c)" by (rule isBeforeOrEqual_column)
  from freshBefore_mono[OF inv this] r eq
  have fb: "list_all (\<lambda>r. isBeforeOrEqual (rend r) (rstart (hd pex))) (fst fresh)"
    by (simp add: freshBefore_def)
  from eq cand have "lastLineBody m ?ln pex fresh = Break" by (simp add: lastLineBody_def)
  with ex have "scanLastLine exec (uglyAll s) tx ?ln li pex fresh = Some fresh"
    by (subst scanLastLine.simps) simp
  with lastLineReach_scan[OF reach]
  have "scanLastLine exec (uglyAll s) tx ?ln ?li0
          (getRangesStartingAt (rend rng) (uglyDecorationRanges s)) fresh1 = Some fresh" by simp
  with first tx have sr: "scanRange exec rng (scanStart s rng) s = Some (Inr fresh)"
    by (simp add: scanRange_def)
  with rules rng have "\<exists>reparsed s'. parsePretty exec range0 s = Some (Inr (reparsed, s'))"
    by (cases "isEmpty (fst fresh)") (simp_all add: parsePretty_def Let_def)
  then obtain reparsed s' where
    ret: "parsePretty exec range0 s = Some (Inr (reparsed, s'))" by blast
  from sr rng have sr': "scanRange exec (validateRange (document s) range0)
      (scanStart s (validateRange (document s) range0)) s = Some (Inr fresh)" by simp
  from parsePretty_indices[OF rules ret sr'] rng
  have u: "uglyDecorationRanges s' = uglyDecorationRanges (mergeFresh rng fresh s)"
    and p: "map ranges (prettyDecorations s') = map ranges (prettyDecorations (mergeFresh rng fresh s))"
    by (simp_all add: indices_def)
  have pl: "length (prettyDecorations (mergeFresh rng fresh s)) = length (prettyDecorations s)"
    using len by (simp add: mergeFresh_pretty length_removeExtraOverlap)
  from p have pl': "length (prettyDecorations s') = length (prettyDecorations (mergeFresh rng fresh s))"
    by (rule map_eq_imp_length_eq)
  have pi: "ranges (prettyDecorations s' ! i) = ranges (prettyDecorations (mergeFresh rng fresh s) ! i)"
    if "i < length (prettyDecorations s)" for i
    using that p pl pl' by (metis nth_map)
  from mergeFresh_keeps[OF fb len, of rng] u pi ret show ?thesis by auto
qed

lemma searchesForward_arrow: "searchesForward (engineOf arrow)"
  unfolding searchesForward_def
proof (intro allI impI)
  fix re tx li and m :: RegExpExecArray
  assume "engineOf arrow re tx li = Some m"
  from engineOf_arrow[OF this]
  show "li \<le> index m \<and>
        (\<forall>whole g. array m ! 0 = Some whole \<and> Some g \<in> set (array m) \<longrightarrow> 0 \<le> indexOf whole g)"
    by auto
qed

section \<open>Where the scan begins\<close>

text \<open>
  Two facts about the loops of \<^verbatim>\<open>parsePretty\<close>, for every place they are started at: a
  range that is in the fresh sets stays there, and (with an engine that searches forward)
  no range gets into them that starts before the place the search began at.
\<close>

lemma insertUgly_fst: "fst (insertUgly u fresh) = insertRange (uglyRange u) (fst fresh)"
  by (simp add: insertUgly_def)

lemma insertPretty_fst: "insertPretty u fresh = Inr fresh' \<Longrightarrow> fst fresh' = fst fresh"
  by (auto simp: insertPretty_def split: if_splits)

lemma insertRange_empty: "insertRange r [] = [r]"
  by (simp add: insertRange_def)

text \<open>The loops only add to the fresh sets.\<close>

lemma insertRange_keeps_mem: "x \<in> set rs \<Longrightarrow> x \<in> set (insertRange r rs)"
  using insertRange_keeps[of rs r] by auto

lemma scanLine_keeps:
  assumes "scanLine exec re tx idx li fresh = Some y"
  shows "\<forall>fresh'. y = Inr fresh' \<longrightarrow> set (fst fresh) \<subseteq> set (fst fresh')"
proof (rule scanLine.raw_induct
         [where P = "\<lambda>exec re tx idx li fresh y.
                      \<forall>fresh'. y = Inr fresh' \<longrightarrow> set (fst fresh) \<subseteq> set (fst fresh')",
          OF _ assms], goal_cases)
  case (1 f exec re tx idx lastIndex fresh y)
  from "1"(2) show ?case
    by (fastforce split: option.splits sum.splits prod.splits
             dest!: "1"(1) insertPretty_fst simp: insertUgly_fst insertRange_keeps_mem)
qed

lemma scanLines_keeps:
  "scanLines exec re doc idxs li fresh = Some (Inr fresh') \<Longrightarrow>
   set (fst fresh) \<subseteq> set (fst fresh')"
proof (induction idxs arbitrary: li fresh)
  case Nil
  then show ?case by simp
next
  case (Cons idx idxs)
  from Cons.prems obtain tx f1 where
    a: "scanLine exec re tx idx li fresh = Some (Inr f1)"
    and b: "scanLines exec re doc idxs 0 f1 = Some (Inr fresh')"
    by (auto split: sum.splits option.splits)
  from scanLine_keeps[OF a] Cons.IH[OF b] show ?case by auto
qed

lemma lastLineBody_keeps:
  "lastLineBody m ln pex fresh = Continue li' pex' fresh' \<Longrightarrow>
   set (fst fresh) \<subseteq> set (fst fresh')"
  by (auto simp: lastLineBody_def Let_def insertCandidate_parts insertRange_keeps_mem
           split: sum.splits prod.splits option.splits if_splits)

lemma scanLastLine_keeps:
  assumes "scanLastLine exec re tx ln li pex fresh = Some fresh'"
  shows "set (fst fresh) \<subseteq> set (fst fresh')"
proof (rule scanLastLine.raw_induct
         [where P = "\<lambda>exec re tx ln li pex fresh fresh'. set (fst fresh) \<subseteq> set (fst fresh')",
          OF _ assms], goal_cases)
  case (1 f exec re tx ln lastIndex pex fresh y)
  from "1"(2) show ?case
    by (fastforce split: option.splits LastLineStep.splits dest!: "1"(1) lastLineBody_keeps)
qed


text \<open>No fresh range starts before the place the scan began at.\<close>

lemma insertRange_all:
  "\<forall>r \<in> set rs. Q r \<Longrightarrow> Q r0 \<Longrightarrow> \<forall>r \<in> set (insertRange r0 rs). Q r"
  using insertRange_subset[of r0 rs] by auto

lemma noCandidate_lastIndex:
  "getUglyFromMatch m idx li0 = Inr (None, l) \<Longrightarrow> l = li0"
  by (auto simp: getUglyFromMatch_def Let_def split: if_splits option.splits)

lemma scanLine_from:
  assumes "scanLine exec re tx idx li fresh = Some y"
  shows "searchesForward exec \<longrightarrow> isBeforeOrEqual p (Position idx li) \<longrightarrow>
         (\<forall>r \<in> set (fst fresh). isBeforeOrEqual p (rstart r)) \<longrightarrow>
         (\<forall>fresh'. y = Inr fresh' \<longrightarrow> (\<forall>r \<in> set (fst fresh'). isBeforeOrEqual p (rstart r)))"
proof (rule scanLine.raw_induct
         [where P = "\<lambda>exec re tx idx li fresh y.
                      searchesForward exec \<longrightarrow> isBeforeOrEqual p (Position idx li) \<longrightarrow>
                      (\<forall>r \<in> set (fst fresh). isBeforeOrEqual p (rstart r)) \<longrightarrow>
                      (\<forall>fresh'. y = Inr fresh' \<longrightarrow>
                         (\<forall>r \<in> set (fst fresh'). isBeforeOrEqual p (rstart r)))",
          OF _ assms], goal_cases)
  case (1 f exec re tx idx lastIndex fresh y)
  show ?case
  proof (intro impI allI)
    fix fresh'
    assume sf: "searchesForward exec" and at: "isBeforeOrEqual p (Position idx lastIndex)"
      and inv: "\<forall>r \<in> set (fst fresh). isBeforeOrEqual p (rstart r)" and y: "y = Inr fresh'"
    show "\<forall>r \<in> set (fst fresh'). isBeforeOrEqual p (rstart r)"
    proof (cases "exec re tx lastIndex")
      case None
      with "1"(2) y inv show ?thesis by simp
    next
      case (Some m)
      from sf Some have im: "lastIndex \<le> index m" by (auto simp: searchesForward_def)
      show ?thesis
      proof (cases "getUglyFromMatch m idx (execLastIndex m)")
        case (Inl e)
        with Some "1"(2) y show ?thesis by simp
      next
        case (Inr q)
        obtain uo l where q: "q = (uo, l)" by (cases q)
        show ?thesis
        proof (cases uo)
          case None
          with Some Inr q "1"(2) have r: "f exec re tx idx l fresh = Some y" by simp
          from Inr q None have "l = execLastIndex m" by (auto dest: noCandidate_lastIndex)
          with im execLastIndex_ge[of m] have "lastIndex \<le> l" by simp
          then have "isBeforeOrEqual (Position idx lastIndex) (Position idx l)"
            by (rule isBeforeOrEqual_column)
          with at have "isBeforeOrEqual p (Position idx l)" by (rule isBeforeOrEqual_trans)
          with "1"(1)[OF r] sf inv y show ?thesis by simp
        next
          case (Some u)
          note u = Some
          from Inr q u have c: "getUglyFromMatch m idx (execLastIndex m) = Inr (Some u, l)" by simp
          from candidate_position[OF sf \<open>exec re tx lastIndex = Some m\<close> c] obtain k where
            k: "lastIndex \<le> k" "k \<le> l"
            and ur: "uglyRange u = Range (Position idx k) (Position idx l)" by blast
          from k have "isBeforeOrEqual (Position idx lastIndex) (Position idx k)"
            "isBeforeOrEqual (Position idx lastIndex) (Position idx l)"
            by (auto intro: isBeforeOrEqual_column)
          with at have pk: "isBeforeOrEqual p (Position idx k)"
            and pl: "isBeforeOrEqual p (Position idx l)"
            by (auto intro: isBeforeOrEqual_trans)
          show ?thesis
          proof (cases "insertPretty u (insertUgly u fresh)")
            case (Inl e)
            with \<open>exec re tx lastIndex = Some m\<close> c "1"(2) y show ?thesis by simp
          next
            case (Inr f1)
            with \<open>exec re tx lastIndex = Some m\<close> c "1"(2)
            have r: "f exec re tx idx l f1 = Some y" by simp
            from insertPretty_fst[OF Inr] have "fst f1 = insertRange (uglyRange u) (fst fresh)"
              by (simp add: insertUgly_fst)
            with insertRange_all[of "fst fresh" "\<lambda>r. isBeforeOrEqual p (rstart r)" "uglyRange u"]
              inv pk ur
            have "\<forall>r \<in> set (fst f1). isBeforeOrEqual p (rstart r)" by simp
            with "1"(1)[OF r] sf pl y show ?thesis by simp
          qed
        qed
      qed
    qed
  qed
qed

lemma scanLines_from:
  "scanLines exec re doc idxs li fresh = Some (Inr fresh') \<Longrightarrow>
   searchesForward exec \<Longrightarrow>
   (idxs \<noteq> [] \<longrightarrow> isBeforeOrEqual p (Position (hd idxs) li)) \<Longrightarrow>
   \<forall>idx \<in> set (tl idxs). isBeforeOrEqual p (Position idx 0) \<Longrightarrow>
   \<forall>r \<in> set (fst fresh). isBeforeOrEqual p (rstart r) \<Longrightarrow>
   \<forall>r \<in> set (fst fresh'). isBeforeOrEqual p (rstart r)"
proof (induction idxs arbitrary: li fresh)
  case Nil
  then show ?case by simp
next
  case (Cons idx idxs)
  from Cons.prems(1) obtain tx f1 where
    a: "scanLine exec re tx idx li fresh = Some (Inr f1)"
    and b: "scanLines exec re doc idxs 0 f1 = Some (Inr fresh')"
    by (auto split: sum.splits option.splits)
  from scanLine_from[OF a, of p] Cons.prems
  have f1: "\<forall>r \<in> set (fst f1). isBeforeOrEqual p (rstart r)" by simp
  from Cons.prems(4) have h: "idxs \<noteq> [] \<longrightarrow> isBeforeOrEqual p (Position (hd idxs) 0)"
    by (cases idxs) auto
  from Cons.prems(4) have t: "\<forall>idx \<in> set (tl idxs). isBeforeOrEqual p (Position idx 0)"
    by (cases idxs) auto
  from Cons.IH[OF b Cons.prems(2) h t f1] show ?case .
qed

lemma lastLineBody_from:
  assumes sf: "searchesForward exec" and ex: "exec re tx li = Some m"
    and step: "lastLineBody m ln pex fresh = Continue li' pex' fresh'"
    and at: "isBeforeOrEqual p (Position ln li)"
    and inv: "\<forall>r \<in> set (fst fresh). isBeforeOrEqual p (rstart r)"
  shows "isBeforeOrEqual p (Position ln li') \<and>
         (\<forall>r \<in> set (fst fresh'). isBeforeOrEqual p (rstart r))"
proof -
  from sf ex have "li \<le> index m" by (auto simp: searchesForward_def)
  with execLastIndex_ge[of m] have le: "li \<le> execLastIndex m" by simp
  show ?thesis
  proof (cases "getUglyFromMatch m ln (execLastIndex m)")
    case (Inl e)
    with step have "li' = execLastIndex m" "fresh' = fresh" by (auto simp: lastLineBody_def)
    with le at inv show ?thesis
      by (auto intro: isBeforeOrEqual_trans isBeforeOrEqual_column)
  next
    case (Inr q)
    obtain uo l where q: "q = (uo, l)" by (cases q)
    show ?thesis
    proof (cases uo)
      case None
      with Inr q step have "li' = l" "fresh' = fresh" by (auto simp: lastLineBody_def)
      moreover from Inr q None have "l = execLastIndex m" by (auto dest: noCandidate_lastIndex)
      ultimately show ?thesis using le at inv
        by (auto intro: isBeforeOrEqual_trans isBeforeOrEqual_column)
    next
      case (Some u)
      with Inr q have c: "getUglyFromMatch m ln (execLastIndex m) = Inr (Some u, l)" by simp
      from candidate_position[OF sf ex c] obtain k where
        k: "li \<le> k" "k \<le> l" and ur: "uglyRange u = Range (Position ln k) (Position ln l)"
        by blast
      from k have "isBeforeOrEqual (Position ln li) (Position ln k)"
        "isBeforeOrEqual (Position ln li) (Position ln l)"
        by (auto intro: isBeforeOrEqual_column)
      with at have pk: "isBeforeOrEqual p (Position ln k)"
        and pl: "isBeforeOrEqual p (Position ln l)"
        by (auto intro: isBeforeOrEqual_trans)
      from step c have e: "li' = l" "fresh' = insertCandidate u fresh"
        by (auto simp: lastLineBody_def Let_def split: if_splits)
      from insertRange_all[of "fst fresh" "\<lambda>r. isBeforeOrEqual p (rstart r)" "uglyRange u"]
        inv pk ur
      have "\<forall>r \<in> set (fst (insertCandidate u fresh)). isBeforeOrEqual p (rstart r)"
        by (simp add: insertCandidate_parts)
      with e pl show ?thesis by simp
    qed
  qed
qed

lemma scanLastLine_from:
  assumes "scanLastLine exec re tx ln li pex fresh = Some fresh'"
  shows "searchesForward exec \<longrightarrow> isBeforeOrEqual p (Position ln li) \<longrightarrow>
         (\<forall>r \<in> set (fst fresh). isBeforeOrEqual p (rstart r)) \<longrightarrow>
         (\<forall>r \<in> set (fst fresh'). isBeforeOrEqual p (rstart r))"
proof (rule scanLastLine.raw_induct
         [where P = "\<lambda>exec re tx ln li pex fresh fresh'.
                      searchesForward exec \<longrightarrow> isBeforeOrEqual p (Position ln li) \<longrightarrow>
                      (\<forall>r \<in> set (fst fresh). isBeforeOrEqual p (rstart r)) \<longrightarrow>
                      (\<forall>r \<in> set (fst fresh'). isBeforeOrEqual p (rstart r))",
          OF _ assms], goal_cases)
  case (1 f exec re tx ln lastIndex pex fresh y)
  show ?case
  proof (intro impI)
    assume sf: "searchesForward exec" and at: "isBeforeOrEqual p (Position ln lastIndex)"
      and inv: "\<forall>r \<in> set (fst fresh). isBeforeOrEqual p (rstart r)"
    show "\<forall>r \<in> set (fst y). isBeforeOrEqual p (rstart r)"
    proof (cases "exec re tx lastIndex")
      case None
      with "1"(2) inv show ?thesis by simp
    next
      case (Some m)
      show ?thesis
      proof (cases "lastLineBody m ln pex fresh")
        case Break
        with Some "1"(2) inv show ?thesis by simp
      next
        case (Continue l pex' f1)
        with Some "1"(2) have r: "f exec re tx ln l pex' f1 = Some y" by simp
        from lastLineBody_from[OF sf Some Continue at inv] "1"(1)[OF r] sf
        show ?thesis by simp
      qed
    qed
  qed
qed

text \<open>
  Claim C4. With at least one rule, \<^verbatim>\<open>parsePretty\<close> begins the scan on the line of
  the range's start at the column \<open>scanStart\<close>: when a stored match ends on that line, at
  or before the range's start, that is the end column of such a match, the closest one (no
  other ends further right); when there is none it is column 0. That the scan begins
  there is said by what it finds: the fresh sets, which \<^verbatim>\<open>parsePretty\<close> merges into the
  indices, hold no range that starts before that place (for an engine that searches
  forward), and the first match the engine reports from that column of that line is in
  them, unless the line is the last one and the match is the stored match the iterator is
  at, where the scan stops with nothing fresh. The range returned starts on that line at
  that column.
\<close>

theorem parsePretty_scan_start:
  assumes rules: "prettyDecorations s \<noteq> []"
    and ord: "isBeforeOrEqual (rstart range0) (rend range0)"
    and ret: "parsePretty exec range0 s = Some (Inr (reparsed, s'))"
  shows "(list_ex (endsOnLineBefore (rstart (validateRange (document s) range0)))
                  (uglyDecorationRanges s) \<longrightarrow>
            list_ex (\<lambda>r. endsOnLineBefore (rstart (validateRange (document s) range0)) r \<and>
                          character (rend r) = scanStart s (validateRange (document s) range0))
                    (uglyDecorationRanges s) \<and>
            list_all (\<lambda>r. endsOnLineBefore (rstart (validateRange (document s) range0)) r \<longrightarrow>
                           character (rend r) \<le> scanStart s (validateRange (document s) range0))
                     (uglyDecorationRanges s)) \<and>
         (\<not> list_ex (endsOnLineBefore (rstart (validateRange (document s) range0)))
                    (uglyDecorationRanges s) \<longrightarrow>
            scanStart s (validateRange (document s) range0) = 0) \<and>
         (\<exists>fresh.
            scanRange exec (validateRange (document s) range0)
              (scanStart s (validateRange (document s) range0)) s = Some (Inr fresh) \<and>
            indices s' = indices (mergeFresh (validateRange (document s) range0) fresh s) \<and>
            (searchesForward exec \<longrightarrow>
               (\<forall>r \<in> set (fst fresh).
                  isBeforeOrEqual
                    (Position (line (rstart (validateRange (document s) range0)))
                              (scanStart s (validateRange (document s) range0)))
                    (rstart r))) \<and>
            (\<forall>tx m u li'.
               lineAt (document s) (line (rstart (validateRange (document s) range0))) = Inr tx \<and>
               exec (uglyAll s) tx (scanStart s (validateRange (document s) range0)) = Some m \<and>
               getUglyFromMatch m (line (rstart (validateRange (document s) range0)))
                 (execLastIndex m) = Inr (Some u, li') \<longrightarrow>
               uglyRange u \<in> set (fst fresh) \<or>
               (line (rstart (validateRange (document s) range0)) =
                  line (rend (validateRange (document s) range0)) \<and>
                getRangesStartingAt (rend (validateRange (document s) range0))
                  (uglyDecorationRanges s) \<noteq> [] \<and>
                hd (getRangesStartingAt (rend (validateRange (document s) range0))
                      (uglyDecorationRanges s)) = uglyRange u \<and>
                fst fresh = []))) \<and>
         rstart reparsed =
           Position (line (rstart (validateRange (document s) range0)))
                    (scanStart s (validateRange (document s) range0))"
proof -
  have from_start:
    "\<forall>r \<in> set (fst fresh). isBeforeOrEqual (Position (line (rstart rng)) c) (rstart r)"
    if sr: "scanRange exec rng c s = Some (Inr fresh)"
      and sf: "searchesForward exec"
      and ord: "isBeforeOrEqual (rstart rng) (rend rng)" for rng c fresh
  proof -
    let ?L = "line (rstart rng)" and ?E = "line (rend rng)"
    let ?p = "Position ?L c"
    from sr obtain fresh1 tx where
      first: "scanLines exec (uglyAll s) (document s) [?L ..< ?E] c
                ([], replicate (length (prettyDecorations s)) []) = Some (Inr fresh1)"
      and last: "scanLastLine exec (uglyAll s) tx ?E (if ?L < ?E then 0 else c)
                   (getRangesStartingAt (rend rng) (uglyDecorationRanges s)) fresh1 = Some fresh"
      by (auto simp: scanRange_def split: option.splits sum.splits)
    from isBeforeOrEqual_line[OF ord] have le: "?L \<le> ?E" .
    have h: "[?L ..< ?E] \<noteq> [] \<longrightarrow> isBeforeOrEqual ?p (Position (hd [?L ..< ?E]) c)"
      by (auto simp: isBeforeOrEqual_refl)
    have t: "\<forall>idx \<in> set (tl [?L ..< ?E]). isBeforeOrEqual ?p (Position idx 0)"
      by (cases "?L < ?E") (auto simp: upt_conv_Cons isBeforeOrEqual_def isBefore_def)
    from scanLines_from[OF first sf h t]
    have f1: "\<forall>r \<in> set (fst fresh1). isBeforeOrEqual ?p (rstart r)" by simp
    have at: "isBeforeOrEqual ?p (Position ?E (if ?L < ?E then 0 else c))"
      using le by (auto simp: isBeforeOrEqual_def isBefore_def)
    from scanLastLine_from[OF last, of ?p] sf at f1 show ?thesis by simp
  qed
  have first_found:
    "uglyRange u \<in> set (fst fresh) \<or>
     (line (rstart rng) = line (rend rng) \<and>
      getRangesStartingAt (rend rng) (uglyDecorationRanges s) \<noteq> [] \<and>
      hd (getRangesStartingAt (rend rng) (uglyDecorationRanges s)) = uglyRange u \<and>
      fst fresh = [])"
    if sr: "scanRange exec rng c s = Some (Inr fresh)"
      and ord: "isBeforeOrEqual (rstart rng) (rend rng)"
      and tx: "lineAt (document s) (line (rstart rng)) = Inr tx"
      and ex: "exec (uglyAll s) tx c = Some m"
      and cand: "getUglyFromMatch m (line (rstart rng)) (execLastIndex m) = Inr (Some u, li')"
    for rng c fresh tx m u li'
  proof -
    let ?L = "line (rstart rng)" and ?E = "line (rend rng)"
    let ?init = "([], replicate (length (prettyDecorations s)) []) :: Fresh"
    let ?pex = "getRangesStartingAt (rend rng) (uglyDecorationRanges s)"
    from sr obtain fresh1 tx' where
      first: "scanLines exec (uglyAll s) (document s) [?L ..< ?E] c ?init = Some (Inr fresh1)"
      and txl: "lineAt (document s) ?E = Inr tx'"
      and last: "scanLastLine exec (uglyAll s) tx' ?E (if ?L < ?E then 0 else c) ?pex fresh1 =
                   Some fresh"
      by (auto simp: scanRange_def split: option.splits sum.splits)
    from isBeforeOrEqual_line[OF ord] have le: "?L \<le> ?E" .
    show ?thesis
    proof (cases "?L < ?E")
      case True
      then have up: "[?L ..< ?E] = ?L # [Suc ?L ..< ?E]" by (rule upt_conv_Cons)
      from first tx obtain f1 where
        a: "scanLine exec (uglyAll s) tx ?L c ?init = Some (Inr f1)"
        and b: "scanLines exec (uglyAll s) (document s) [Suc ?L ..< ?E] 0 f1 = Some (Inr fresh1)"
        unfolding up by (auto split: sum.splits option.splits)
      from a ex cand obtain f0 where
        i: "insertPretty u (insertUgly u ?init) = Inr f0"
        and r: "scanLine exec (uglyAll s) tx ?L li' f0 = Some (Inr f1)"
        by (subst (asm) scanLine.simps) (auto split: sum.splits)
      from insertPretty_fst[OF i] have "fst f0 = [uglyRange u]"
        by (simp add: insertUgly_fst insertRange_empty)
      with scanLine_keeps[OF r] have "uglyRange u \<in> set (fst f1)" by auto
      with scanLines_keeps[OF b] scanLastLine_keeps[OF last] show ?thesis by auto
    next
      case False
      with le have eq: "?L = ?E" by simp
      with first have f1: "fresh1 = ?init" by simp
      from eq tx txl have t: "tx' = tx" by simp
      from last False f1 t
      have l: "scanLastLine exec (uglyAll s) tx ?E c ?pex ?init = Some fresh" by simp
      show ?thesis
      proof (cases "?pex \<noteq> [] \<and> hd ?pex = uglyRange u")
        case True
        with cand eq have "lastLineBody m ?E ?pex ?init = Break" by (simp add: lastLineBody_def)
        with l ex have "fresh = ?init" by (subst (asm) scanLastLine.simps) simp
        with True eq show ?thesis by simp
      next
        case False
        with cand eq obtain pex' where
          "lastLineBody m ?E ?pex ?init = Continue li' pex' (insertCandidate u ?init)"
          by (auto simp: lastLineBody_def Let_def)
        with l ex have r: "scanLastLine exec (uglyAll s) tx ?E li' pex' (insertCandidate u ?init) =
                             Some fresh"
          by (subst (asm) scanLastLine.simps) simp
        have "fst (insertCandidate u ?init) = [uglyRange u]"
          by (simp add: insertCandidate_parts insertRange_empty)
        with scanLastLine_keeps[OF r] show ?thesis by auto
      qed
    qed
  qed
  let ?rng = "validateRange (document s) range0"
  let ?sc = "scanStart s ?rng"
  from ret rules obtain fresh where sr: "scanRange exec ?rng ?sc s = Some (Inr fresh)"
    and rp: "reparsed = newRange (withCharacter (rstart ?rng) ?sc)
                (if \<not> isEmpty (fst fresh) then maxPosition (rend ?rng) (getEnd (fst fresh))
                 else rend ?rng)"
    by (auto simp: parsePretty_def Let_def split: option.splits sum.splits if_splits)
  have o: "isBeforeOrEqual (rstart ?rng) (rend ?rng)" by (rule validateRange_ordered[OF ord])
  have "isBeforeOrEqual (withCharacter (rstart ?rng) ?sc) (rstart ?rng)"
    by (rule withCharacter_le[OF scanStart_le])
  from this o have a: "isBeforeOrEqual (withCharacter (rstart ?rng) ?sc) (rend ?rng)"
    by (rule isBeforeOrEqual_trans)
  from a maxPosition_ge have b: "isBeforeOrEqual (withCharacter (rstart ?rng) ?sc)
                  (maxPosition (rend ?rng) (getEnd (fst fresh)))"
    by (rule isBeforeOrEqual_trans)
  from rp a b have st: "rstart reparsed = Position (line (rstart ?rng)) ?sc"
    by (simp add: newRange_id withCharacter_def split: if_splits)
  note ix = parsePretty_indices[OF rules ret sr]
  have fr: "searchesForward exec \<longrightarrow>
            (\<forall>r \<in> set (fst fresh). isBeforeOrEqual (Position (line (rstart ?rng)) ?sc) (rstart r))"
    using from_start[OF sr _ o] by blast
  have fc: "\<forall>tx m u li'.
               lineAt (document s) (line (rstart ?rng)) = Inr tx \<and>
               exec (uglyAll s) tx ?sc = Some m \<and>
               getUglyFromMatch m (line (rstart ?rng)) (execLastIndex m) = Inr (Some u, li') \<longrightarrow>
               uglyRange u \<in> set (fst fresh) \<or>
               (line (rstart ?rng) = line (rend ?rng) \<and>
                getRangesStartingAt (rend ?rng) (uglyDecorationRanges s) \<noteq> [] \<and>
                hd (getRangesStartingAt (rend ?rng) (uglyDecorationRanges s)) = uglyRange u \<and>
                fst fresh = [])"
    using first_found[OF sr o] by blast
  from sr ix fr fc have ex: "\<exists>fresh.
            scanRange exec ?rng ?sc s = Some (Inr fresh) \<and>
            indices s' = indices (mergeFresh ?rng fresh s) \<and>
            (searchesForward exec \<longrightarrow>
               (\<forall>r \<in> set (fst fresh).
                  isBeforeOrEqual (Position (line (rstart ?rng)) ?sc) (rstart r))) \<and>
            (\<forall>tx m u li'.
               lineAt (document s) (line (rstart ?rng)) = Inr tx \<and>
               exec (uglyAll s) tx ?sc = Some m \<and>
               getUglyFromMatch m (line (rstart ?rng)) (execLastIndex m) = Inr (Some u, li') \<longrightarrow>
               uglyRange u \<in> set (fst fresh) \<or>
               (line (rstart ?rng) = line (rend ?rng) \<and>
                getRangesStartingAt (rend ?rng) (uglyDecorationRanges s) \<noteq> [] \<and>
                hd (getRangesStartingAt (rend ?rng) (uglyDecorationRanges s)) = uglyRange u \<and>
                fst fresh = []))"
    by (intro exI[of _ fresh] conjI)
  from scanStart_cases[of ?rng s] ex st show ?thesis by (intro conjI) blast+
qed

text \<open>
  After \<^verbatim>\<open> ->\<close> was typed at the end of \<^verbatim>\<open>a -> b\<close> the stored match ends at column
  4 of the line of the edit. The scan begins there: it finds the new match at columns 7
  to 9, and not the stored one at columns 2 to 4, which a search from column 0 reports
  first. The returned range starts at column 4.
\<close>

theorem parsePretty_scan_start_witness:
  "prettyDecorations (arrowState\<lparr>document := [''a -> b ->'']\<rparr>) \<noteq> [] \<and>
   isBeforeOrEqual (Position 0 6) (Position 0 9) \<and>
   searchesForward (engineOf arrow) \<and>
   map_option (map_sum id (\<lambda>(reparsed, s). (reparsed, indices s)))
       (parsePretty (engineOf arrow) (Range (Position 0 6) (Position 0 9))
          (arrowState\<lparr>document := [''a -> b ->'']\<rparr>)) =
     Some (Inr (Range (Position 0 4) (Position 0 9),
                [Range (Position 0 2) (Position 0 4), Range (Position 0 7) (Position 0 9)],
                [[Range (Position 0 2) (Position 0 4), Range (Position 0 7) (Position 0 9)]])) \<and>
   list_ex (endsOnLineBefore (Position 0 6))
       (uglyDecorationRanges (arrowState\<lparr>document := [''a -> b ->'']\<rparr>)) \<and>
   scanStart (arrowState\<lparr>document := [''a -> b ->'']\<rparr>)
       (Range (Position 0 6) (Position 0 9)) = 4 \<and>
   scanRange (engineOf arrow) (Range (Position 0 6) (Position 0 9)) 4
       (arrowState\<lparr>document := [''a -> b ->'']\<rparr>) =
     Some (Inr ([Range (Position 0 7) (Position 0 9)], [[Range (Position 0 7) (Position 0 9)]])) \<and>
   engineOf arrow ''(?:(->))'' ''a -> b ->'' 4 =
     Some \<lparr>index = 7, array = [Some ''->'', Some ''->'']\<rparr> \<and>
   getUglyFromMatch \<lparr>index = 7, array = [Some ''->'', Some ''->'']\<rparr> 0 9 =
     Inr (Some \<lparr>uglyRange = Range (Position 0 7) (Position 0 9), prettyIndex = 0\<rparr>, 9) \<and>
   engineOf arrow ''(?:(->))'' ''a -> b ->'' 0 =
     Some \<lparr>index = 2, array = [Some ''->'', Some ''->'']\<rparr> \<and>
   Range (Position 0 7) (Position 0 9) \<in> set [Range (Position 0 7) (Position 0 9)] \<and>
   Range (Position 0 2) (Position 0 4) \<notin> set [Range (Position 0 7) (Position 0 9)] \<and>
   list_all (\<lambda>r. isBeforeOrEqual (Position 0 4) (rstart r)) [Range (Position 0 7) (Position 0 9)]"
proof -
  let ?s = "arrowState\<lparr>document := [''a -> b ->'']\<rparr>"
  let ?r = "Range (Position 0 6) (Position 0 9)"
  let ?m = "\<lparr>index = 7, array = [Some ''->'', Some ''->'']\<rparr>"
  let ?u = "\<lparr>uglyRange = Range (Position 0 7) (Position 0 9), prettyIndex = 0\<rparr>"
  have rules: "prettyDecorations ?s \<noteq> []" by (simp add: arrowState_def)
  have ord: "isBeforeOrEqual (rstart ?r) (rend ?r)" by (simp add: isBeforeOrEqual_def isBefore_def)
  have pp: "map_option (map_sum id (\<lambda>(reparsed, s). (reparsed, indices s)))
       (parsePretty (engineOf arrow) ?r ?s) =
     Some (Inr (Range (Position 0 4) (Position 0 9),
                [Range (Position 0 2) (Position 0 4), Range (Position 0 7) (Position 0 9)],
                [[Range (Position 0 2) (Position 0 4), Range (Position 0 7) (Position 0 9)]]))"
    by code_simp
  then obtain reparsed s' where ret: "parsePretty (engineOf arrow) ?r ?s = Some (Inr (reparsed, s'))"
    by (cases "parsePretty (engineOf arrow) ?r ?s") (auto simp: map_sum_def split: sum.splits)
  have v: "validateRange (document ?s) ?r = ?r" by code_simp
  have e: "list_ex (endsOnLineBefore (Position 0 6)) (uglyDecorationRanges ?s)" by code_simp
  have sc: "scanStart ?s ?r = 4" by code_simp
  have sr: "scanRange (engineOf arrow) ?r 4 ?s =
     Some (Inr ([Range (Position 0 7) (Position 0 9)], [[Range (Position 0 7) (Position 0 9)]]))"
    by code_simp
  have la: "lineAt (document ?s) 0 = Inr ''a -> b ->''" by code_simp
  have ua: "uglyAll ?s = ''(?:(->))''" by (simp add: arrowState_def)
  have ex: "engineOf arrow ''(?:(->))'' ''a -> b ->'' 4 = Some ?m" by code_simp
  have x: "execLastIndex ?m = 9" by code_simp
  have g: "getUglyFromMatch ?m 0 9 = Inr (Some ?u, 9)" by code_simp
  have e0: "engineOf arrow ''(?:(->))'' ''a -> b ->'' 0 =
     Some \<lparr>index = 2, array = [Some ''->'', Some ''->'']\<rparr>" by code_simp
  have b: "\<not> isBeforeOrEqual (Position 0 4) (Position 0 2)" by code_simp
  note t = parsePretty_scan_start[OF rules ord ret, unfolded v sc Range.sel Position.sel]
  from t obtain fresh where
    f1: "scanRange (engineOf arrow) ?r 4 ?s = Some (Inr fresh)"
    and f2': "searchesForward (engineOf arrow) \<longrightarrow>
              (\<forall>r \<in> set (fst fresh). isBeforeOrEqual (Position 0 4) (rstart r))"
    and f3': "\<forall>tx m u li'.
               lineAt (document ?s) 0 = Inr tx \<and> engineOf arrow (uglyAll ?s) tx 4 = Some m \<and>
               getUglyFromMatch m 0 (execLastIndex m) = Inr (Some u, li') \<longrightarrow>
               uglyRange u \<in> set (fst fresh) \<or>
               (0 = 0 \<and>
                getRangesStartingAt (Position 0 9) (uglyDecorationRanges ?s) \<noteq> [] \<and>
                hd (getRangesStartingAt (Position 0 9) (uglyDecorationRanges ?s)) = uglyRange u \<and>
                fst fresh = [])"
    by blast
  from f2' searchesForward_arrow
  have f2: "\<forall>r \<in> set (fst fresh). isBeforeOrEqual (Position 0 4) (rstart r)" by simp
  from f3' have f3: "\<forall>tx m u li'.
               lineAt (document ?s) 0 = Inr tx \<and> engineOf arrow (uglyAll ?s) tx 4 = Some m \<and>
               getUglyFromMatch m 0 (execLastIndex m) = Inr (Some u, li') \<longrightarrow>
               uglyRange u \<in> set (fst fresh) \<or> fst fresh = []"
    by blast
  from g x have g': "getUglyFromMatch ?m 0 (execLastIndex ?m) = Inr (Some ?u, 9)" by (simp only:)
  from ex ua have ex': "engineOf arrow (uglyAll ?s) ''a -> b ->'' 4 = Some ?m" by (simp only:)
  from f3[rule_format, of "''a -> b ->''" ?m ?u 9] la ex' g'
  have "Range (Position 0 7) (Position 0 9) \<in> set (fst fresh) \<or> fst fresh = []"
    by simp
  with f1 sr have m1: "Range (Position 0 7) (Position 0 9) \<in> set (fst fresh)" by auto
  from f2 b have m2: "Range (Position 0 2) (Position 0 4) \<notin> set (fst fresh)" by auto
  from f2 have m3: "list_all (\<lambda>r. isBeforeOrEqual (Position 0 4) (rstart r)) (fst fresh)"
    by (simp add: list_all_iff)
  from f1 sr have fr: "fst fresh = [Range (Position 0 7) (Position 0 9)]" by auto
  from m1[unfolded fr] m2[unfolded fr] m3[unfolded fr] have k:
    "Range (Position 0 7) (Position 0 9) \<in> set [Range (Position 0 7) (Position 0 9)] \<and>
     Range (Position 0 2) (Position 0 4) \<notin> set [Range (Position 0 7) (Position 0 9)] \<and>
     list_all (\<lambda>r. isBeforeOrEqual (Position 0 4) (rstart r)) [Range (Position 0 7) (Position 0 9)]"
    by (intro conjI)
  from rules ord searchesForward_arrow pp e sc sr ex g e0 k show ?thesis
    by (simp only: Range.sel simp_thms)
qed

section \<open>The scenarios of the spec\<close>

text \<open>
  The runs the spec lists as testable properties, on the rule \<^verbatim>\<open>->\<close> and the line
  \<^verbatim>\<open>a -> b\<close>: the scan of the document finds the one match at columns 2 to 4; a
  character inserted at column 0 shifts it to columns 3 to 5; replacing the \<^verbatim>\<open>-\<close> by
  \<^verbatim>\<open>=\<close> removes it; a line inserted before moves it to the next line.
\<close>

lemma scenario_simple_substitution:
  "source arrow = ''(?:(->))'' \<and>
   newController (\<lambda>re. True) (engineOf arrow) [''a -> b''] arrowRules = Some (Inr arrowState)"
  by code_simp

lemma scenario_insertion_before_match:
  "map_option indices
     (onChangeDocument (engineOf arrow)
        \<lparr>eventDocument = [''xa -> b''],
         contentChanges =
           [\<lparr>changeRange = Range (Position 0 0) (Position 0 0), changeText = ''x''\<rparr>]\<rparr>
        arrowState) =
   Some ([Range (Position 0 3) (Position 0 5)], [[Range (Position 0 3) (Position 0 5)]])"
  by code_simp

lemma scenario_editing_inside_match:
  "map_option indices
     (onChangeDocument (engineOf arrow)
        \<lparr>eventDocument = [''a => b''],
         contentChanges =
           [\<lparr>changeRange = Range (Position 0 2) (Position 0 3), changeText = ''=''\<rparr>]\<rparr>
        arrowState) =
   Some ([], [[]])"
  by code_simp

lemma scenario_line_inserted_before:
  "applyChange [''a -> b'']
     \<lparr>changeRange = Range (Position 0 0) (Position 0 0), changeText = [CHR ''z'', CHR 0x0A]\<rparr> =
     [''z'', ''a -> b''] \<and>
   map_option indices
     (onChangeDocument (engineOf arrow)
        \<lparr>eventDocument = [''z'', ''a -> b''],
         contentChanges =
           [\<lparr>changeRange = Range (Position 0 0) (Position 0 0),
             changeText = [CHR ''z'', CHR 0x0A]\<rparr>]\<rparr>
        arrowState) =
   Some ([Range (Position 1 2) (Position 1 4)], [[Range (Position 1 2) (Position 1 4)]])"
  by code_simp

lemma scenario_several_lines:
  "map_option (map_sum id (\<lambda>s. uglyDecorationRanges s))
     (newController (\<lambda>re. True) (engineOf arrow) [''->'', ''a -> b ->'', ''x'', ''->->''] arrowRules) =
   Some (Inr [Range (Position 0 0) (Position 0 2), Range (Position 1 2) (Position 1 4),
              Range (Position 1 7) (Position 1 9), Range (Position 3 0) (Position 3 2),
              Range (Position 3 2) (Position 3 4)])"
  by code_simp

end
